theory Spec2Isabelle
  imports Complex_Main
begin

section \<open>Strings of the worker\<close>

text \<open>
  A JavaScript string is a sequence of 16-bit code units. The strings that reach the
  worker from outside (the file name and the file reference of an upload, the identifier
  of a request) and the strings it builds from them are lists of code units,
  \<open>jstring\<close>. The text of the record store comes out of \<^verbatim>\<open>atob\<close>, whose result has
  every code unit below 256: it is a list of 8-bit \<^typ>\<open>char\<close>s, and so are the string
  literals of the source. \<open>units\<close> reads such text as a JavaScript string, \<open>latin1\<close>
  holds for the strings with every code unit below 256, the ones \<^verbatim>\<open>btoa\<close> accepts,
  and \<open>narrow\<close> gives their text.
\<close>

abbreviation DQUOTE :: char where "DQUOTE \<equiv> CHR 0x22"
abbreviation COMMA :: char where "COMMA \<equiv> CHR 0x2C"
abbreviation LF :: char where "LF \<equiv> CHR 0x0A"

type_synonym jstring = "nat list"

definition units :: "string \<Rightarrow> jstring" where
  "units s = map of_char s"

definition latin1 :: "jstring \<Rightarrow> bool" where
  "latin1 s = list_all (\<lambda>u. u < 256) s"

definition narrow :: "jstring \<Rightarrow> string" where
  "narrow s = map char_of s"

text \<open>
  \<^verbatim>\<open>String.prototype.trim\<close> removes the ECMAScript WhiteSpace and LineTerminator code
  points; those below 256 are TAB, LF, VT, FF, CR, SP and NBSP.
\<close>

definition isWhiteSpace :: "char \<Rightarrow> bool" where
  "isWhiteSpace c =
     (c = CHR 0x09 \<or> c = CHR 0x0A \<or> c = CHR 0x0B \<or> c = CHR 0x0C \<or> c = CHR 0x0D \<or>
      c = CHR 0x20 \<or> c = CHR 0xA0)"

definition trimEnd :: "string \<Rightarrow> string" where
  "trimEnd s = rev (dropWhile isWhiteSpace (rev s))"

definition trim :: "string \<Rightarrow> string" where
  "trim s = trimEnd (dropWhile isWhiteSpace s)"

text \<open>
  \<^verbatim>\<open>String.prototype.toLowerCase\<close> on code units below 256: A-Z and the Latin-1 capitals
  0xC0-0xDE (0xD7, the multiplication sign, apart) move up by 0x20.
\<close>

definition lowerChar :: "char \<Rightarrow> char" where
  "lowerChar c =
     (let n = (of_char c :: nat) in
      if (65 \<le> n \<and> n \<le> 90) \<or> (192 \<le> n \<and> n \<le> 222 \<and> n \<noteq> 215)
      then char_of (n + 32) else c)"

definition toLowerCase :: "string \<Rightarrow> string" where
  "toLowerCase s = map lowerChar s"

definition startsWith :: "string \<Rightarrow> string \<Rightarrow> bool" where
  "startsWith s sub = (take (length sub) s = sub)"

text \<open>\<^verbatim>\<open>s.includes(sub)\<close>: \<open>sub\<close> occurs in \<open>s\<close> at some position.\<close>

fun str_includes :: "string \<Rightarrow> string \<Rightarrow> bool" where
  "str_includes [] sub = (sub = [])"
| "str_includes (c # cs) sub = (startsWith (c # cs) sub \<or> str_includes cs sub)"

text \<open>\<^verbatim>\<open>s.split('\n')\<close>: never empty; a string with k line feeds gives k + 1 pieces.\<close>

fun split_lines :: "string \<Rightarrow> string list" where
  "split_lines [] = [[]]"
| "split_lines (c # cs) =
     (if c = LF then [] # split_lines cs
      else (case split_lines cs of l # ls \<Rightarrow> (c # l) # ls | [] \<Rightarrow> [[c]]))"

text \<open>\<^verbatim>\<open>s.charAt(k)\<close>: the empty string when \<open>k\<close> is out of range.\<close>

definition charAt :: "string \<Rightarrow> int \<Rightarrow> string" where
  "charAt s k = (if 0 \<le> k \<and> k < int (length s) then [s ! nat k] else [])"

section \<open>The delimited-text parser and writer\<close>

text \<open>
  \<^verbatim>\<open>parseCSVLine\<close> (worker.js 287-313). The loop state is \<open>result\<close>, \<open>current\<close>,
  \<open>inQuotes\<close> and the text from index \<open>i\<close> on; \<^verbatim>\<open>line[i + 1] === '"'\<close> is false at the
  end of the line.
\<close>

function parse_loop :: "string list \<Rightarrow> string \<Rightarrow> bool \<Rightarrow> string \<Rightarrow> string list" where
  "parse_loop result current inQuotes rest =
     (case rest of
        [] \<Rightarrow> result @ [trim current]
      | char # after \<Rightarrow>
          if char = DQUOTE then
            (if inQuotes \<and> (case after of d # _ \<Rightarrow> d = DQUOTE | [] \<Rightarrow> False)
             then parse_loop result (current @ [DQUOTE]) inQuotes (drop 1 after)
             else parse_loop result current (\<not> inQuotes) after)
          else if char = COMMA \<and> \<not> inQuotes
          then parse_loop (result @ [trim current]) [] inQuotes after
          else parse_loop result (current @ [char]) inQuotes after)"
  by pat_completeness auto
termination
  by (relation "measure (\<lambda>(result, current, inQuotes, rest). length rest)") auto

definition parseCSVLine :: "string \<Rightarrow> string list" where
  "parseCSVLine line = parse_loop [] [] False line"

text \<open>
  \<^verbatim>\<open>escapeCSV\<close> (worker.js 425-431), on the file name as the upload carries it;
  \<open>double_quotes\<close> is \<^verbatim>\<open>str.replace(/"/g, '""')\<close>.
\<close>

definition double_quotes :: "jstring \<Rightarrow> jstring" where
  "double_quotes str =
     concat (map (\<lambda>u. if u = of_char DQUOTE then units [DQUOTE, DQUOTE] else [u]) str)"

definition escapeCSV :: "jstring \<Rightarrow> jstring" where
  "escapeCSV str =
     (if of_char COMMA \<in> set str \<or> of_char DQUOTE \<in> set str \<or> of_char LF \<in> set str
      then units [DQUOTE] @ double_quotes str @ units [DQUOTE] else str)"

section \<open>Identifier generation\<close>

text \<open>
  \<^verbatim>\<open>generateNumericalFileId\<close> (worker.js 505-512). \<open>rnd i\<close> is the value of the call
  of \<^verbatim>\<open>Math.random()\<close> in iteration \<open>i\<close>. The product with the length is the exact
  one; the code rounds it to a double, which for a value in \<open>[0, 1)\<close> lies in
  \<open>[0, 10)\<close> like the exact product and can differ from it in the digit it selects.
\<close>

definition digits :: string where
  "digits = ''0123456789''"

function gen_loop :: "(nat \<Rightarrow> real) \<Rightarrow> nat \<Rightarrow> nat \<Rightarrow> string \<Rightarrow> string" where
  "gen_loop rnd len i result =
     (if i < len
      then gen_loop rnd len (i + 1) (result @ charAt digits \<lfloor>rnd i * real (length digits)\<rfloor>)
      else result)"
  by pat_completeness auto
termination
  by (relation "measure (\<lambda>(rnd, len, i, result). len - i)") auto

definition generateNumericalFileId :: "(nat \<Rightarrow> real) \<Rightarrow> string" where
  "generateNumericalFileId rnd = gen_loop rnd 16 0 []"

section \<open>Scans over the store content\<close>

record file_data =
  file_id :: string
  file_name :: string
  file_type :: string

record duplicate =
  numericalId :: string
  fileData :: file_data

text \<open>\<^verbatim>\<open>a || b\<close> on strings: the empty string is falsy.\<close>

definition or_else :: "'a list \<Rightarrow> 'a list \<Rightarrow> 'a list" where
  "or_else a b = (if a = [] then b else a)"

text \<open>
  The \<^verbatim>\<open>for\<close> loop of \<^verbatim>\<open>findFileByIdStreaming\<close> (worker.js 262-279), over the lines
  not yet visited. The identifier asked for is a string from outside; \<^verbatim>\<open>===\<close> compares
  code unit by code unit.
\<close>

fun find_loop :: "bool \<Rightarrow> string list \<Rightarrow> jstring \<Rightarrow> file_data option" where
  "find_loop headerSkipped [] numericalFileId = None"
| "find_loop headerSkipped (l # ls) numericalFileId =
     (if trim l = [] then find_loop headerSkipped ls numericalFileId
      else if \<not> headerSkipped \<and> str_includes (toLowerCase (trim l)) ''numerical''
      then find_loop True ls numericalFileId
      else if 4 \<le> length (parseCSVLine (trim l)) \<and>
              units (parseCSVLine (trim l) ! 0) = numericalFileId
      then Some \<lparr>file_id = parseCSVLine (trim l) ! 1,
                 file_name = or_else (parseCSVLine (trim l) ! 2) ''Unknown'',
                 file_type = or_else (parseCSVLine (trim l) ! 3) ''Unknown''\<rparr>
      else find_loop headerSkipped ls numericalFileId)"

text \<open>
  What \<^verbatim>\<open>findFileByIdStreaming\<close> does with the content it has read: \<^verbatim>\<open>!content\<close> holds
  for \<^verbatim>\<open>null\<close> and for the empty string.
\<close>

definition find_in_content :: "string option \<Rightarrow> jstring \<Rightarrow> file_data option" where
  "find_in_content content numericalFileId =
     (case content of
        None \<Rightarrow> None
      | Some c \<Rightarrow> if c = [] then None else find_loop False (split_lines c) numericalFileId)"

text \<open>The \<^verbatim>\<open>for\<close> loop of \<^verbatim>\<open>checkForDuplicate\<close> (worker.js 346-361).\<close>

fun dup_loop :: "string list \<Rightarrow> jstring \<Rightarrow> jstring \<Rightarrow> duplicate option" where
  "dup_loop [] fileName fileId = None"
| "dup_loop (line # ls) fileName fileId =
     (if trim line = [] then dup_loop ls fileName fileId
      else if 4 \<le> length (parseCSVLine line) \<and>
              (units (parseCSVLine line ! 2) = fileName \<or> units (parseCSVLine line ! 1) = fileId)
      then Some \<lparr>numericalId = parseCSVLine line ! 0,
                 fileData = \<lparr>file_id = parseCSVLine line ! 1,
                             file_name = parseCSVLine line ! 2,
                             file_type = parseCSVLine line ! 3\<rparr>\<rparr>
      else dup_loop ls fileName fileId)"

definition dup_in_content :: "string option \<Rightarrow> jstring \<Rightarrow> jstring \<Rightarrow> duplicate option" where
  "dup_in_content content fileName fileId =
     (case content of
        None \<Rightarrow> None
      | Some c \<Rightarrow> if c = [] then None else dup_loop (split_lines c) fileName fileId)"

text \<open>
  The \<^verbatim>\<open>while\<close> loop of \<^verbatim>\<open>getFileCount\<close> (worker.js 327-333) with the statement after
  it, over the content from \<open>pos\<close> on: it leaves the loop when no line feed is left.
\<close>

function count_lines :: "string \<Rightarrow> nat \<Rightarrow> nat" where
  "count_lines rest lineCount =
     (if rest \<noteq> [] \<and> LF \<in> set rest
      then count_lines (drop 1 (dropWhile (\<lambda>c. c \<noteq> LF) rest))
             (if trim (takeWhile (\<lambda>c. c \<noteq> LF) rest) \<noteq> [] then lineCount + 1 else lineCount)
      else (if trim rest \<noteq> [] then lineCount + 1 else lineCount))"
  by pat_completeness auto
termination
proof (relation "measure (\<lambda>(rest, lineCount). length rest)")
  show "wf (measure (\<lambda>(rest, lineCount). length rest))"
    by simp
next
  fix rest :: string and lineCount :: nat
  assume "rest \<noteq> [] \<and> LF \<in> set rest"
  then have "length (dropWhile (\<lambda>c. c \<noteq> LF) rest) \<le> length rest" and "dropWhile (\<lambda>c. c \<noteq> LF) rest \<noteq> []"
    by (simp_all add: length_dropWhile_le)
  then show "((drop 1 (dropWhile (\<lambda>c. c \<noteq> LF) rest),
               if trim (takeWhile (\<lambda>c. c \<noteq> LF) rest) \<noteq> [] then lineCount + 1 else lineCount),
              rest, lineCount) \<in> measure (\<lambda>(rest, lineCount). length rest)"
    by (cases "dropWhile (\<lambda>c. c \<noteq> LF) rest") simp_all
qed

text \<open>The header test of \<^verbatim>\<open>getFileCount\<close> (worker.js 322-326).\<close>

definition hasHeader :: "string \<Rightarrow> bool" where
  "hasHeader content =
     (if LF \<in> set content
      then str_includes (toLowerCase (takeWhile (\<lambda>c. c \<noteq> LF) content)) ''numerical'' \<or>
           str_includes (toLowerCase (takeWhile (\<lambda>c. c \<noteq> LF) content)) ''file_id''
      else False)"

definition count_content :: "string option \<Rightarrow> int" where
  "count_content content =
     (case content of
        None \<Rightarrow> 0
      | Some c \<Rightarrow>
          if c = [] then 0
          else max 0 (int (count_lines c 0) - (if hasHeader c then 1 else 0)))"

section \<open>Base64 transport encoding\<close>

text \<open>
  \<^verbatim>\<open>btoa\<close> and \<^verbatim>\<open>atob\<close> are built into the platform. \<open>base64\<close> is the RFC 4648
  encoding of a sequence of bytes, with padding. \<open>btoa\<close> throws (here \<open>None\<close>) on a
  string with a code unit above 255 and gives the encoding of any other string, every
  code unit a byte. \<open>atob\<close> is the forgiving decoder of the WHATWG Infra standard: it
  drops ASCII whitespace, takes off one or two padding signs when the length is a multiple
  of four, and throws on a length of 1 modulo 4 or a character outside the alphabet.
\<close>

definition b64chars :: string where
  "b64chars = ''ABCDEFGHIJKLMNOPQRSTUVWXYZabcdefghijklmnopqrstuvwxyz0123456789+/''"

fun index_of :: "'a \<Rightarrow> 'a list \<Rightarrow> nat option" where
  "index_of x [] = None"
| "index_of x (y # ys) = (if x = y then Some 0 else map_option Suc (index_of x ys))"

fun sextets :: "nat list \<Rightarrow> nat list" where
  "sextets (a # b # c # bytes) =
     [a div 4, (a mod 4) * 16 + b div 16, (b mod 16) * 4 + c div 64, c mod 64] @ sextets bytes"
| "sextets [a, b] = [a div 4, (a mod 4) * 16 + b div 16, (b mod 16) * 4]"
| "sextets [a] = [a div 4, (a mod 4) * 16]"
| "sextets [] = []"

definition padding :: "nat \<Rightarrow> string" where
  "padding n = (if n mod 3 = 1 then ''=='' else if n mod 3 = 2 then ''='' else [])"

definition base64 :: "string \<Rightarrow> string" where
  "base64 s = map (\<lambda>k. b64chars ! k) (sextets (map of_char s)) @ padding (length s)"

definition btoa :: "jstring \<Rightarrow> string option" where
  "btoa s = (if latin1 s then Some (base64 (narrow s)) else None)"

fun octets :: "nat list \<Rightarrow> nat list" where
  "octets (p # q # r # s # ks) =
     [p * 4 + q div 16, (q mod 16) * 16 + r div 4, (r mod 4) * 64 + s] @ octets ks"
| "octets [p, q, r] = [p * 4 + q div 16, (q mod 16) * 16 + r div 4]"
| "octets [p, q] = [p * 4 + q div 16]"
| "octets [p] = []"
| "octets [] = []"

definition isAsciiWhitespace :: "char \<Rightarrow> bool" where
  "isAsciiWhitespace c =
     (c = CHR 0x09 \<or> c = CHR 0x0A \<or> c = CHR 0x0C \<or> c = CHR 0x0D \<or> c = CHR 0x20)"

definition strip_padding :: "string \<Rightarrow> string" where
  "strip_padding d =
     (if length d mod 4 = 0
      then (if 2 \<le> length d \<and> drop (length d - 2) d = ''=='' then take (length d - 2) d
            else if 1 \<le> length d \<and> drop (length d - 1) d = ''='' then take (length d - 1) d
            else d)
      else d)"

definition atob :: "string \<Rightarrow> string option" where
  "atob s =
     (let d = strip_padding (filter (\<lambda>c. \<not> isAsciiWhitespace c) s) in
      if length d mod 4 = 1 then None
      else map_option (\<lambda>ks. map char_of (octets ks)) (those (map (\<lambda>c. index_of c b64chars) d)))"

section \<open>The collaborators: remote store, messaging platform, console\<close>

text \<open>
  The worker reaches its collaborators through \<^verbatim>\<open>fetch\<close> and \<^verbatim>\<open>console\<close>. Each
  endpoint it calls is a function from the state of the world \<open>'w\<close> to what the call gives
  back and the state after it. A reply is what the worker looks at: whether the call
  threw, the status, and the fields of the JSON body that it reads.
\<close>

type_synonym sha = nat

datatype contents_reply =
    ContentsThrew
  | Contents404
  | ContentsNotOk nat
  | ContentsOk sha nat string

datatype blob_reply =
    BlobThrew
  | BlobNotOk nat
  | BlobOk string string

datatype put_reply =
    PutThrew
  | PutNotOk nat
  | PutOk

record job =
  chatId :: int
  messageId :: int
  deleteAt :: int

text \<open>
  The body of the deletions file is JSON text inside base64; a reply carries the list it
  denotes. Text that \<^verbatim>\<open>JSON.parse\<close> or \<^verbatim>\<open>atob\<close> rejects is a call that threw. The
  fields of a job are numbers, so the JSON text of a list of jobs has no code unit above
  255 and \<^verbatim>\<open>btoa\<close> accepts it.
\<close>

datatype deletions_reply =
    DeletionsThrew
  | Deletions404
  | DeletionsNotOk nat
  | DeletionsOk "job list" sha

datatype send_reply =
    SendThrew
  | SendReply bool int

text \<open>
  What \<^verbatim>\<open>fetch\<close> gives for a deletion request: it threw, or it returned a response,
  whose \<open>ok\<close> says whether the platform has deleted the message.
\<close>

datatype delete_reply =
    DeleteThrew
  | DeleteReturned bool

text \<open>
  What the worker throws: the errors it makes itself, a rejected \<^verbatim>\<open>fetch\<close>, the
  \<^verbatim>\<open>TypeError\<close> of reading a field of \<^verbatim>\<open>undefined\<close> and the error of \<^verbatim>\<open>btoa\<close>.
  \<open>notice\<close> is a message to the chat. Of the console, the entries are kept that
  \<^verbatim>\<open>deleteMessage\<close>, the sweep and the upload handler write when they catch an error.
\<close>

datatype error =
    ApiError nat
  | UpdateError nat
  | BlobError nat
  | ReadFailed
  | FetchFailed
  | TypeError
  | InvalidCharacterError

datatype notice =
    Checking
  | AlreadyExists string string
  | Adding
  | Received jstring string int
  | ErrorNotice error

datatype log_entry =
    DeleteMessageError int error
  | UpdateDeletionsError error
  | UploadError error

record 'w env =
  get_contents :: "'w \<Rightarrow> contents_reply \<times> 'w"
  get_blob :: "sha \<Rightarrow> 'w \<Rightarrow> blob_reply \<times> 'w"
  put_contents :: "string \<Rightarrow> sha option \<Rightarrow> 'w \<Rightarrow> put_reply \<times> 'w"
  get_deletions :: "'w \<Rightarrow> deletions_reply \<times> 'w"
  put_deletions :: "job list \<Rightarrow> sha option \<Rightarrow> 'w \<Rightarrow> put_reply \<times> 'w"
  post_sendMessage :: "int \<Rightarrow> notice \<Rightarrow> 'w \<Rightarrow> send_reply \<times> 'w"
  post_deleteMessage :: "int \<Rightarrow> int \<Rightarrow> 'w \<Rightarrow> delete_reply \<times> 'w"
  console_error :: "log_entry \<Rightarrow> 'w \<Rightarrow> 'w"

section \<open>The record store client\<close>

definition GITHUB_SIZE_LIMIT :: nat where
  "GITHUB_SIZE_LIMIT = 1048576"

record file_info =
  exists :: bool
  sha :: "sha option"
  size_bytes :: nat
  isLarge :: bool

definition no_file :: file_info where
  "no_file = \<lparr>exists = False, sha = None, size_bytes = 0, isLarge = False\<rparr>"

text \<open>\<^verbatim>\<open>getFileInfo\<close> (worker.js 167-206).\<close>

definition getFileInfo :: "'w env \<Rightarrow> 'w \<Rightarrow> file_info \<times> 'w" where
  "getFileInfo api w =
     (case get_contents api w of
        (ContentsThrew, w') \<Rightarrow> (no_file, w')
      | (Contents404, w') \<Rightarrow> (no_file, w')
      | (ContentsNotOk status, w') \<Rightarrow> (no_file, w')
      | (ContentsOk h n content, w') \<Rightarrow>
          (\<lparr>exists = True, sha = Some h, size_bytes = n, isLarge = (n > GITHUB_SIZE_LIMIT)\<rparr>, w'))"

text \<open>\<^verbatim>\<open>downloadLargeFile\<close> (worker.js 208-227).\<close>

definition downloadLargeFile :: "'w env \<Rightarrow> 'w \<Rightarrow> string option \<times> 'w" where
  "downloadLargeFile api w =
     (case getFileInfo api w of (fileInfo, w1) \<Rightarrow>
        if \<not> exists fileInfo then (None, w1)
        else (case sha fileInfo of
                None \<Rightarrow> (None, w1)
              | Some h \<Rightarrow>
                 (case get_blob api h w1 of
                    (BlobThrew, w2) \<Rightarrow> (None, w2)
                  | (BlobNotOk status, w2) \<Rightarrow> (None, w2)
                  | (BlobOk encoding content, w2) \<Rightarrow>
                      (if encoding = ''base64'' then atob content else Some content, w2))))"

text \<open>\<^verbatim>\<open>getFileContent\<close> (worker.js 229-252).\<close>

definition getFileContent :: "'w env \<Rightarrow> 'w \<Rightarrow> string option \<times> 'w" where
  "getFileContent api w =
     (case getFileInfo api w of (fileInfo, w1) \<Rightarrow>
        if \<not> exists fileInfo then (None, w1)
        else if isLarge fileInfo then downloadLargeFile api w1
        else (case get_contents api w1 of
                (ContentsThrew, w2) \<Rightarrow> (None, w2)
              | (Contents404, w2) \<Rightarrow> (None, w2)
              | (ContentsNotOk status, w2) \<Rightarrow> (None, w2)
              | (ContentsOk h n content, w2) \<Rightarrow> (atob content, w2)))"

definition findFileByIdStreaming :: "'w env \<Rightarrow> jstring \<Rightarrow> 'w \<Rightarrow> file_data option \<times> 'w" where
  "findFileByIdStreaming api numericalFileId w =
     (case getFileContent api w of (content, w') \<Rightarrow> (find_in_content content numericalFileId, w'))"

definition getFileCount :: "'w env \<Rightarrow> 'w \<Rightarrow> int \<times> 'w" where
  "getFileCount api w =
     (case getFileContent api w of (content, w') \<Rightarrow> (count_content content, w'))"

definition checkForDuplicate :: "'w env \<Rightarrow> jstring \<Rightarrow> jstring \<Rightarrow> 'w \<Rightarrow> duplicate option \<times> 'w" where
  "checkForDuplicate api fileName fileId w =
     (case getFileContent api w of (content, w') \<Rightarrow> (dup_in_content content fileName fileId, w'))"

text \<open>
  \<^verbatim>\<open>createFile\<close> and \<^verbatim>\<open>updateFile\<close> (worker.js 388-423). The body of the request
  holds \<^verbatim>\<open>btoa(content)\<close>: when that throws, no request goes out.
\<close>

definition createFile :: "'w env \<Rightarrow> jstring \<Rightarrow> 'w \<Rightarrow> (error + unit) \<times> 'w" where
  "createFile api content w =
     (case btoa content of
        None \<Rightarrow> (Inl InvalidCharacterError, w)
      | Some body \<Rightarrow>
         (case put_contents api body None w of
            (PutThrew, w') \<Rightarrow> (Inl FetchFailed, w')
          | (PutNotOk status, w') \<Rightarrow> (Inl (ApiError status), w')
          | (PutOk, w') \<Rightarrow> (Inr (), w')))"

definition updateFile :: "'w env \<Rightarrow> jstring \<Rightarrow> sha option \<Rightarrow> 'w \<Rightarrow> (error + unit) \<times> 'w" where
  "updateFile api content h w =
     (case btoa content of
        None \<Rightarrow> (Inl InvalidCharacterError, w)
      | Some body \<Rightarrow>
         (case put_contents api body h w of
            (PutThrew, w') \<Rightarrow> (Inl FetchFailed, w')
          | (PutNotOk status, w') \<Rightarrow> (Inl (ApiError status), w')
          | (PutOk, w') \<Rightarrow> (Inr (), w')))"

text \<open>
  \<^verbatim>\<open>appendToCSV\<close> (worker.js 369-386); the \<^verbatim>\<open>catch\<close> logs and rethrows. The four
  arguments are strings from outside, the content read from the store is text.
\<close>

definition header_line :: string where
  "header_line = ''numerical_file_id,file_id,file_name,file_type''"

definition csv_row :: "jstring \<Rightarrow> jstring \<Rightarrow> jstring \<Rightarrow> jstring \<Rightarrow> jstring" where
  "csv_row numericalFileId fileId fileName fileType =
     numericalFileId @ units [COMMA] @ fileId @ units [COMMA] @ escapeCSV fileName @
     units [COMMA] @ fileType"

definition appendToCSV ::
  "'w env \<Rightarrow> jstring \<Rightarrow> jstring \<Rightarrow> jstring \<Rightarrow> jstring \<Rightarrow> 'w \<Rightarrow> (error + unit) \<times> 'w" where
  "appendToCSV api numericalFileId fileId fileName fileType w =
     (case getFileInfo api w of (fileInfo, w1) \<Rightarrow>
        if \<not> exists fileInfo
        then createFile api
               (units (header_line @ [LF]) @ csv_row numericalFileId fileId fileName fileType @
                units [LF]) w1
        else (case getFileContent api w1 of (currentContent, w2) \<Rightarrow>
                (case currentContent of
                   None \<Rightarrow> (Inl ReadFailed, w2)
                 | Some c \<Rightarrow>
                     if c = [] then (Inl ReadFailed, w2)
                     else updateFile api
                            (units (trimEnd c @ [LF]) @
                             csv_row numericalFileId fileId fileName fileType @ units [LF])
                            (sha fileInfo) w2)))"

section \<open>The messaging client\<close>

text \<open>
  \<^verbatim>\<open>try { body } catch (error) { handler }\<close>: a body that throws hands its error, and
  the world it left, to the handler.
\<close>

definition try_catch ::
  "(error + 'a) \<times> 'w \<Rightarrow> (error \<Rightarrow> 'w \<Rightarrow> (error + 'a) \<times> 'w) \<Rightarrow> (error + 'a) \<times> 'w" where
  "try_catch body handler =
     (case body of (Inl e, w) \<Rightarrow> handler e w | (Inr v, w) \<Rightarrow> (Inr v, w))"

text \<open>\<^verbatim>\<open>TelegramBot.sendMessage\<close> (worker.js 440-453): nothing is caught.\<close>

definition sendMessage :: "'w env \<Rightarrow> int \<Rightarrow> notice \<Rightarrow> 'w \<Rightarrow> (error + bool \<times> int) \<times> 'w" where
  "sendMessage api cid text w =
     (case post_sendMessage api cid text w of
        (SendThrew, w') \<Rightarrow> (Inl FetchFailed, w')
      | (SendReply ok mid, w') \<Rightarrow> (Inr (ok, mid), w'))"

text \<open>
  \<^verbatim>\<open>TelegramBot.deleteMessage\<close> (worker.js 487-502): the response is not looked at.
\<close>

definition deleteMessage :: "'w env \<Rightarrow> int \<Rightarrow> int \<Rightarrow> 'w \<Rightarrow> (error + unit) \<times> 'w" where
  "deleteMessage api cid mid w =
     try_catch
       (case post_deleteMessage api cid mid w of
          (DeleteThrew, w') \<Rightarrow> (Inl FetchFailed, w')
        | (DeleteReturned ok, w') \<Rightarrow> (Inr (), w'))
       (\<lambda>error w'. (Inr (), console_error api (DeleteMessageError mid error) w'))"

section \<open>The deletion queue and its sweep\<close>







section \<open>Upload handling\<close>

datatype tg_file = TgFile jstring "jstring option"

record message =
  chat_id :: int
  message_id :: int
  document :: "tg_file option"
  photo :: "tg_file list option"
  video :: "tg_file option"

text \<open>
  The head of \<^verbatim>\<open>handleFileUpload\<close> (worker.js 517-533): \<open>fileId\<close>, \<open>fileName\<close> and
  \<open>fileType\<close>. The last element of an empty \<open>photo\<close> array is \<^verbatim>\<open>undefined\<close>, and
  reading its \<open>file_id\<close> throws.
\<close>

definition name_or :: "jstring option \<Rightarrow> jstring \<Rightarrow> jstring" where
  "name_or n d = (case n of None \<Rightarrow> d | Some s \<Rightarrow> or_else s d)"

definition upload_fields :: "message \<Rightarrow> error + jstring \<times> jstring \<times> jstring" where
  "upload_fields m =
     (case document m of
        Some (TgFile fid fname) \<Rightarrow>
          Inr (fid, name_or fname (units ''Document''), units ''Document'')
      | None \<Rightarrow>
         (case photo m of
            Some sizes \<Rightarrow>
              (case rev sizes of
                 [] \<Rightarrow> Inl TypeError
               | TgFile fid fname # _ \<Rightarrow> Inr (fid, units ''Photo'', units ''Photo''))
          | None \<Rightarrow>
             (case video m of
                Some (TgFile fid fname) \<Rightarrow> Inr (fid, name_or fname (units ''Video''), units ''Video'')
              | None \<Rightarrow> Inr ([], units ''Unknown file name'', units ''Unknown file type''))))"

text \<open>
  The \<^verbatim>\<open>try\<close> block of \<^verbatim>\<open>handleFileUpload\<close> (worker.js 540-553). \<open>rnd\<close> feeds the
  identifier generator. The timer that deletes the incoming message after a minute
  touches the chat only and is left out.
\<close>

definition upload_body ::
  "'w env \<Rightarrow> (nat \<Rightarrow> real) \<Rightarrow> int \<Rightarrow> jstring \<Rightarrow> jstring \<Rightarrow> jstring \<Rightarrow> 'w \<Rightarrow> (error + unit) \<times> 'w" where
  "upload_body api rnd cid fileId fileName fileType w =
     (case sendMessage api cid Checking w of
        (Inl e, w1) \<Rightarrow> (Inl e, w1)
      | (Inr (statusOk, statusId), w1) \<Rightarrow>
         (case checkForDuplicate api fileName fileId w1 of (existingFile, w2) \<Rightarrow>
           (case (if statusOk then snd (deleteMessage api cid statusId w2) else w2) of w3 \<Rightarrow>
             (case existingFile of
                Some found \<Rightarrow>
                  (case sendMessage api cid
                          (AlreadyExists (file_name (fileData found)) (numericalId found)) w3 of
                     (Inl e, w4) \<Rightarrow> (Inl e, w4)
                   | (Inr sent, w4) \<Rightarrow> (Inr (), w4))
              | None \<Rightarrow>
                  (case sendMessage api cid Adding w3 of
                     (Inl e, w4) \<Rightarrow> (Inl e, w4)
                   | (Inr (addingOk, addingId), w4) \<Rightarrow>
                      (case appendToCSV api (units (generateNumericalFileId rnd)) fileId fileName
                              fileType w4 of
                         (Inl e, w5) \<Rightarrow> (Inl e, w5)
                       | (Inr u, w5) \<Rightarrow>
                          (case getFileCount api w5 of (totalFiles, w6) \<Rightarrow>
                            (case (if addingOk then snd (deleteMessage api cid addingId w6) else w6) of w7 \<Rightarrow>
                              (case sendMessage api cid
                                      (Received fileName (generateNumericalFileId rnd) totalFiles) w7 of
                                 (Inl e, w8) \<Rightarrow> (Inl e, w8)
                               | (Inr sent, w8) \<Rightarrow> (Inr (), w8))))))))))"

text \<open>
  \<^verbatim>\<open>handleFileUpload\<close> (worker.js 514-558): the \<^verbatim>\<open>catch\<close> logs the error and reports
  it to the chat; a failure of that last message leaves the handler.
\<close>

definition handleFileUpload :: "'w env \<Rightarrow> (nat \<Rightarrow> real) \<Rightarrow> message \<Rightarrow> 'w \<Rightarrow> (error + unit) \<times> 'w" where
  "handleFileUpload api rnd m w =
     (case upload_fields m of
        Inl e \<Rightarrow> (Inl e, w)
      | Inr (fileId, fileName, fileType) \<Rightarrow>
          if fileId = [] then (Inr (), w)
          else try_catch (upload_body api rnd (chat_id m) fileId fileName fileType w)
                 (\<lambda>error w'.
                    (case sendMessage api (chat_id m) (ErrorNotice error)
                            (console_error api (UploadError error) w') of
                       (Inl e, w'') \<Rightarrow> (Inl e, w'')
                     | (Inr sent, w'') \<Rightarrow> (Inr (), w''))))"

section \<open>A world for the collaborators\<close>

text \<open>
  The remote store keeps at most one file per path, with the version token of its
  current content; a write is accepted when the token it carries is the current one (no
  token for a path that has no file) and gives the content a token never issued before.
  The path read refuses to carry content above the size ceiling and answers with an
  empty \<open>content\<close>; a blob is read by the token of the content. The messaging platform
  records the requests it receives. What may go wrong in a run is fixed by \<open>faults\<close>: a
  deletion request may throw, or return the response of a platform that refuses to delete.
\<close>

record world =
  csv_file :: "(string \<times> sha) option"
  queue_file :: "(job list \<times> sha) option"
  fresh :: sha
  queue_writes :: "job list list"
  tg_sends :: "(int \<times> notice) list"
  tg_deletes :: "(int \<times> int) list"
  console :: "log_entry list"

record faults =
  send_reply_of :: "int \<Rightarrow> notice \<Rightarrow> send_reply"
  delete_throws :: "int \<Rightarrow> int \<Rightarrow> bool"
  delete_refused :: "int \<Rightarrow> int \<Rightarrow> bool"
  queue_put_refused :: bool

definition put_file ::
  "'a \<Rightarrow> sha option \<Rightarrow> ('a \<times> sha) option \<Rightarrow> sha \<Rightarrow> (('a \<times> sha) option) option" where
  "put_file content h current new =
     (case current of
        None \<Rightarrow> if h = None then Some (Some (content, new)) else None
      | Some (old, h') \<Rightarrow> if h = Some h' then Some (Some (content, new)) else None)"

definition service :: "faults \<Rightarrow> world env" where
  "service f =
     \<lparr>get_contents = (\<lambda>w.
        (case csv_file w of
           None \<Rightarrow> Contents404
         | Some (bytes, h) \<Rightarrow>
             ContentsOk h (length bytes)
               (if length bytes > GITHUB_SIZE_LIMIT then [] else base64 bytes), w)),
      get_blob = (\<lambda>h w.
        (case csv_file w of
           None \<Rightarrow> BlobNotOk 404
         | Some (bytes, h') \<Rightarrow> if h = h' then BlobOk ''base64'' (base64 bytes) else BlobNotOk 404, w)),
      put_contents = (\<lambda>content h w.
        (case atob content of
           None \<Rightarrow> (PutNotOk 422, w)
         | Some bytes \<Rightarrow>
            (case put_file bytes h (csv_file w) (fresh w) of
               None \<Rightarrow> (PutNotOk 409, w)
             | Some file \<Rightarrow> (PutOk, w\<lparr>csv_file := file, fresh := Suc (fresh w)\<rparr>)))),
      get_deletions = (\<lambda>w.
        (case queue_file w of
           None \<Rightarrow> Deletions404
         | Some (jobs, h) \<Rightarrow> DeletionsOk jobs h, w)),
      put_deletions = (\<lambda>jobs h w.
        (case (if queue_put_refused f then None else put_file jobs h (queue_file w) (fresh w)) of
           None \<Rightarrow> (PutNotOk 409, w\<lparr>queue_writes := queue_writes w @ [jobs]\<rparr>)
         | Some file \<Rightarrow>
             (PutOk, w\<lparr>queue_file := file, fresh := Suc (fresh w),
                       queue_writes := queue_writes w @ [jobs]\<rparr>))),
      post_sendMessage = (\<lambda>c text w. (send_reply_of f c text, w\<lparr>tg_sends := tg_sends w @ [(c, text)]\<rparr>)),
      post_deleteMessage = (\<lambda>c mid w.
        (if delete_throws f c mid then DeleteThrew else DeleteReturned (\<not> delete_refused f c mid),
         w\<lparr>tg_deletes := tg_deletes w @ [(c, mid)]\<rparr>)),
      console_error = (\<lambda>entry w. w\<lparr>console := console w @ [entry]\<rparr>)\<rparr>"

text \<open>
  A store that answers every probe with the same reply and every blob read with what
  \<open>blob\<close> gives for the token, and keeps the requests it has received. The other
  endpoints are not reached by the reads.
\<close>

datatype request = GetContents | GetBlob sha

definition scripted :: "contents_reply \<Rightarrow> (sha \<Rightarrow> blob_reply) \<Rightarrow> request list env" where
  "scripted probe blob =
     \<lparr>get_contents = (\<lambda>log. (probe, log @ [GetContents])),
      get_blob = (\<lambda>h log. (blob h, log @ [GetBlob h])),
      put_contents = (\<lambda>content h log. (PutThrew, log)),
      get_deletions = (\<lambda>log. (DeletionsThrew, log)),
      put_deletions = (\<lambda>jobs h log. (PutThrew, log)),
      post_sendMessage = (\<lambda>c text log. (SendThrew, log)),
      post_deleteMessage = (\<lambda>c mid log. (DeleteThrew, log)),
      console_error = (\<lambda>entry log. log)\<rparr>"


section \<open>Entries, rows and the lines of the store\<close>

text \<open>
  The lines a scan looks at or a count counts: the lines that are not blank, without
  their trailing whitespace (which no scan sees: a field is trimmed when it is pushed).
\<close>

definition data_lines :: "string \<Rightarrow> string list" where
  "data_lines content = filter (\<lambda>l. trim l \<noteq> []) (map trimEnd (split_lines content))"

text \<open>
  A field that the writer emits as it is and the parser reads back in one piece.
\<close>

definition plain :: "string \<Rightarrow> bool" where
  "plain s = (DQUOTE \<notin> set s \<and> COMMA \<notin> set s)"

text \<open>
  The text of what \<^verbatim>\<open>escapeCSV\<close> and the row template of \<^verbatim>\<open>appendToCSV\<close> give for
  arguments that are text themselves.
\<close>

definition doubled :: "string \<Rightarrow> string" where
  "doubled n = narrow (double_quotes (units n))"

definition quoted :: "string \<Rightarrow> string" where
  "quoted n = narrow (escapeCSV (units n))"

definition row_text :: "string \<Rightarrow> string \<Rightarrow> string \<Rightarrow> string \<Rightarrow> string" where
  "row_text i r n t = narrow (csv_row (units i) (units r) (units n) (units t))"

text \<open>
  The four arguments of one call of \<^verbatim>\<open>appendToCSV\<close> with every code unit below 256,
  as text: \<open>numericalFileId\<close>, \<open>fileId\<close>, \<open>fileName\<close> and \<open>fileType\<close>.
\<close>

record entry =
  entry_id :: string
  entry_file_id :: string
  entry_name :: string
  entry_type :: string

definition row_of :: "entry \<Rightarrow> string" where
  "row_of e = row_text (entry_id e) (entry_file_id e) (entry_name e) (entry_type e)"

text \<open>
  A field that neither \<^verbatim>\<open>trim\<close> nor \<^verbatim>\<open>split('\n')\<close> changes.
\<close>

definition tidy :: "string \<Rightarrow> bool" where
  "tidy s = (trim s = s \<and> LF \<notin> set s)"

text \<open>
  An entry whose row is one line that parses back to its four fields: the name may hold
  commas and quotes, the other fields are written unescaped and may not.
\<close>

definition clean :: "entry \<Rightarrow> bool" where
  "clean e =
     (plain (entry_id e) \<and> tidy (entry_id e) \<and> plain (entry_file_id e) \<and> tidy (entry_file_id e) \<and>
      tidy (entry_name e) \<and> plain (entry_type e) \<and> tidy (entry_type e))"

text \<open>
  Content that begins with the header line, as every file written by
  \<^verbatim>\<open>appendToCSV\<close> does.
\<close>

definition headed :: "string \<Rightarrow> bool" where
  "headed content = startsWith content (header_line @ [LF])"

text \<open>
  The bytes of the record store file in a world.
\<close>

definition content_of :: "world \<Rightarrow> string option" where
  "content_of w = map_option fst (csv_file w)"

text \<open>
  A sequence of calls of \<^verbatim>\<open>appendToCSV\<close>, with the outcome of each.
\<close>

fun appends :: "'w env \<Rightarrow> entry list \<Rightarrow> 'w \<Rightarrow> (error + unit) list \<times> 'w" where
  "appends api [] w = ([], w)"
| "appends api (e # es) w =
     (case appendToCSV api (units (entry_id e)) (units (entry_file_id e)) (units (entry_name e))
             (units (entry_type e)) w of
        (outcome, w') \<Rightarrow> (case appends api es w' of (outcomes, w'') \<Rightarrow> (outcome # outcomes, w'')))"

text \<open>
  The content \<^verbatim>\<open>appendToCSV\<close> writes (worker.js 373 and 378-379).
\<close>

definition next_content :: "string option \<Rightarrow> string \<Rightarrow> string" where
  "next_content content row =
     (case content of
        None \<Rightarrow> header_line @ [LF] @ row @ [LF]
      | Some c \<Rightarrow> trimEnd c @ [LF] @ row @ [LF])"

text \<open>
  The lines below the header line.
\<close>

definition stored_rows :: "world \<Rightarrow> string list" where
  "stored_rows w = (case content_of w of None \<Rightarrow> [] | Some c \<Rightarrow> tl (data_lines c))"

definition well_headed :: "world \<Rightarrow> bool" where
  "well_headed w = (case content_of w of None \<Rightarrow> True | Some c \<Rightarrow> headed c)"

text \<open>
  What a scan that finds the row of an entry returns.
\<close>

definition data_of :: "entry \<Rightarrow> file_data" where
  "data_of e =
     \<lparr>file_id = entry_file_id e, file_name = or_else (entry_name e) ''Unknown'',
      file_type = or_else (entry_type e) ''Unknown''\<rparr>"

definition duplicate_of :: "entry \<Rightarrow> duplicate" where
  "duplicate_of e =
     \<lparr>numericalId = entry_id e,
      fileData = \<lparr>file_id = entry_file_id e, file_name = entry_name e, file_type = entry_type e\<rparr>\<rparr>"

text \<open>A world with no file and no request yet, and collaborators that never fail.\<close>

definition empty_world :: world where
  "empty_world =
     \<lparr>csv_file = None, queue_file = None, fresh = 0, queue_writes = [], tg_sends = [],
      tg_deletes = [], console = []\<rparr>"

definition reliable :: faults where
  "reliable =
     \<lparr>send_reply_of = (\<lambda>c text. SendReply True 1), delete_throws = (\<lambda>c mid. False),
      delete_refused = (\<lambda>c mid. False), queue_put_refused = False\<rparr>"

text \<open>A sequence of calls of \<^verbatim>\<open>handleFileUpload\<close>, each with its own random source.\<close>

fun uploads :: "'w env \<Rightarrow> ((nat \<Rightarrow> real) \<times> message) list \<Rightarrow> 'w \<Rightarrow> 'w" where
  "uploads api [] w = w"
| "uploads api ((rnd, m) # rest) w = uploads api rest (snd (handleFileUpload api rnd m w))"

text \<open>The records a scan of the store sees below the header line: the fields of each line.\<close>

definition records :: "world \<Rightarrow> string list list" where
  "records w = map parseCSVLine (stored_rows w)"

text \<open>
  The test \<^verbatim>\<open>findFileByIdStreaming\<close> applies to a line while it has skipped no header
  yet (worker.js 264-266), and the lines its scan treats as data.
\<close>

definition find_header_test :: "string \<Rightarrow> bool" where
  "find_header_test l = (trim l \<noteq> [] \<and> str_includes (toLowerCase (trim l)) ''numerical'')"

fun without_header :: "string list \<Rightarrow> string list" where
  "without_header [] = []"
| "without_header (l # ls) = (if find_header_test l then ls else l # without_header ls)"

text \<open>
  The header detection in the words of the specification: a marker token, whatever its
  case, in the first line that is not empty.
\<close>

definition spec_header_detected :: "string \<Rightarrow> bool" where
  "spec_header_detected content =
     (case filter (\<lambda>l. trim l \<noteq> []) (split_lines content) of
        [] \<Rightarrow> False
      | l # ls \<Rightarrow> str_includes (toLowerCase l) ''numerical'')"

text \<open>
  An upload whose file reference the writer emits as it is, and whose name and file
  reference come back from the store as they went in.
\<close>

definition tidy_upload :: "message \<Rightarrow> bool" where
  "tidy_upload m =
     (case upload_fields m of
        Inl e \<Rightarrow> True
      | Inr (fid, name, kind) \<Rightarrow>
          latin1 fid \<and> latin1 name \<and> plain (narrow fid) \<and> tidy (narrow fid) \<and> tidy (narrow name))"

section \<open>Code units and text\<close>

lemma narrow_units [simp]: "narrow (units s) = s"
  by (simp add: narrow_def units_def comp_def)

lemma code_unit_bound: "(of_char c :: nat) < 256"
  by (cases c) (simp add: of_char_def)

lemma latin1_units [simp]: "latin1 (units s)"
  by (simp add: latin1_def units_def list_all_iff code_unit_bound)

lemma units_narrow: "latin1 s \<Longrightarrow> units (narrow s) = s"
  by (induction s) (simp_all add: latin1_def units_def narrow_def)

lemma units_eq_units [simp]: "units a = units b \<longleftrightarrow> a = b"
  by (metis narrow_units)

lemma units_eq_iff: "units a = p \<longleftrightarrow> latin1 p \<and> a = narrow p"
  using units_narrow [of p] by auto

lemma units_append [simp]: "units (a @ b) = units a @ units b"
  by (simp add: units_def)

lemma units_Nil [simp]: "units [] = []"
  by (simp add: units_def)

lemma units_eq_Nil [simp]: "units s = [] \<longleftrightarrow> s = []"
  by (simp add: units_def)

lemma narrow_append [simp]: "narrow (a @ b) = narrow a @ narrow b"
  by (simp add: narrow_def)

lemma latin1_append [simp]: "latin1 (a @ b) \<longleftrightarrow> latin1 a \<and> latin1 b"
  by (simp add: latin1_def)

lemma code_of_special:
  "(of_char c :: nat) = 34 \<longleftrightarrow> c = DQUOTE"
  "(of_char c :: nat) = 44 \<longleftrightarrow> c = COMMA"
  "(of_char c :: nat) = 10 \<longleftrightarrow> c = LF"
proof -
  have "(of_char c :: nat) = of_char DQUOTE \<longleftrightarrow> c = DQUOTE"
    "(of_char c :: nat) = of_char COMMA \<longleftrightarrow> c = COMMA"
    "(of_char c :: nat) = of_char LF \<longleftrightarrow> c = LF"
    by (simp_all only: of_char_eq_iff)
  then show "(of_char c :: nat) = 34 \<longleftrightarrow> c = DQUOTE" "(of_char c :: nat) = 44 \<longleftrightarrow> c = COMMA"
    "(of_char c :: nat) = 10 \<longleftrightarrow> c = LF"
    by simp_all
qed

lemma set_units:
  "34 \<in> set (units n) \<longleftrightarrow> DQUOTE \<in> set n"
  "44 \<in> set (units n) \<longleftrightarrow> COMMA \<in> set n"
  "10 \<in> set (units n) \<longleftrightarrow> LF \<in> set n"
  by (auto simp: units_def code_of_special)

lemma double_quotes_units:
  "double_quotes (units n) =
     units (concat (map (\<lambda>c. if c = DQUOTE then [DQUOTE, DQUOTE] else [c]) n))"
  by (induction n) (simp_all add: double_quotes_def units_def code_of_special)

lemma doubled_eq: "doubled n = concat (map (\<lambda>c. if c = DQUOTE then [DQUOTE, DQUOTE] else [c]) n)"
  by (simp add: doubled_def double_quotes_units)

lemma double_quotes_doubled: "double_quotes (units n) = units (doubled n)"
  by (simp add: doubled_eq double_quotes_units)

lemma escapeCSV_units: "escapeCSV (units n) = units (quoted n)"
  unfolding quoted_def
  by (simp add: escapeCSV_def double_quotes_doubled del: units_append flip: units_append)

lemma quoted_eq:
  "quoted n =
     (if COMMA \<in> set n \<or> DQUOTE \<in> set n \<or> LF \<in> set n then [DQUOTE] @ doubled n @ [DQUOTE] else n)"
  by (simp add: quoted_def escapeCSV_def set_units double_quotes_doubled)

lemma csv_row_units: "csv_row (units i) (units r) (units n) (units t) = units (row_text i r n t)"
  unfolding row_text_def
  by (simp add: csv_row_def escapeCSV_units del: units_append flip: units_append)

lemma row_text_eq: "row_text i r n t = i @ [COMMA] @ r @ [COMMA] @ quoted n @ [COMMA] @ t"
  by (simp add: row_text_def csv_row_def escapeCSV_units)

lemma latin1_double_quotes: "latin1 (double_quotes n) = latin1 n"
  by (induction n) (auto simp: double_quotes_def latin1_def units_def)

lemma latin1_escapeCSV: "latin1 (escapeCSV n) = latin1 n"
  by (simp add: escapeCSV_def latin1_double_quotes)

lemma latin1_csv_row: "latin1 (csv_row i r n t) \<longleftrightarrow> latin1 i \<and> latin1 r \<and> latin1 n \<and> latin1 t"
  by (simp add: csv_row_def latin1_escapeCSV)

lemma csv_row_narrow:
  "latin1 i \<Longrightarrow> latin1 r \<Longrightarrow> latin1 n \<Longrightarrow> latin1 t \<Longrightarrow>
   narrow (csv_row i r n t) = row_text (narrow i) (narrow r) (narrow n) (narrow t)"
  by (simp add: row_text_def units_narrow)

section \<open>Unfolding the loops\<close>

lemma parse_loop_nonempty: "parse_loop result current inQuotes rest \<noteq> []"
  by (induction result current inQuotes rest rule: parse_loop.induct)
     (simp split: list.splits)

declare parse_loop.simps [simp del]
declare gen_loop.simps [simp del]
declare count_lines.simps [simp del]

lemma parse_loop_Nil: "parse_loop result current inQuotes [] = result @ [trim current]"
  by (simp add: parse_loop.simps)

lemma parse_loop_Cons:
  "parse_loop result current inQuotes (c # after) =
     (if c = DQUOTE then
        (if inQuotes \<and> (case after of d # _ \<Rightarrow> d = DQUOTE | [] \<Rightarrow> False)
         then parse_loop result (current @ [DQUOTE]) inQuotes (drop 1 after)
         else parse_loop result current (\<not> inQuotes) after)
      else if c = COMMA \<and> \<not> inQuotes
      then parse_loop (result @ [trim current]) [] inQuotes after
      else parse_loop result (current @ [c]) inQuotes after)"
  by (subst parse_loop.simps) simp

lemma parse_loop_open_quote:
  "DQUOTE \<notin> set rest \<Longrightarrow> parse_loop result current True rest = result @ [trim (current @ rest)]"
  by (induction rest arbitrary: current) (auto simp: parse_loop_Nil parse_loop_Cons)

lemma split_lines_no_LF: "LF \<notin> set s \<Longrightarrow> split_lines s = [s]"
  by (induction s) auto

lemma split_lines_not_Nil: "split_lines s \<noteq> []"
  by (induction s) (simp_all split: list.splits)

lemma split_lines_LF:
  "LF \<in> set s \<Longrightarrow>
   split_lines s = takeWhile (\<lambda>c. c \<noteq> LF) s # split_lines (drop 1 (dropWhile (\<lambda>c. c \<noteq> LF) s))"
  by (induction s) (auto split: list.splits simp: split_lines_not_Nil)

lemma count_lines_step:
  "LF \<in> set rest \<Longrightarrow>
   count_lines rest n =
     count_lines (drop 1 (dropWhile (\<lambda>c. c \<noteq> LF) rest))
       (if trim (takeWhile (\<lambda>c. c \<noteq> LF) rest) \<noteq> [] then n + 1 else n)"
  by (subst count_lines.simps) auto

lemma count_lines_stop:
  "LF \<notin> set rest \<Longrightarrow> count_lines rest n = (if trim rest \<noteq> [] then n + 1 else n)"
  by (subst count_lines.simps) simp

lemma count_lines_filter:
  "count_lines rest n = n + length (filter (\<lambda>l. trim l \<noteq> []) (split_lines rest))"
proof (induction rest n rule: count_lines.induct)
  case (1 rest lineCount)
  show ?case
  proof (cases "LF \<in> set rest")
    case True
    then have ne: "rest \<noteq> [] \<and> LF \<in> set rest"
      by auto
    have s: "split_lines rest =
        takeWhile (\<lambda>c. c \<noteq> LF) rest # split_lines (drop 1 (dropWhile (\<lambda>c. c \<noteq> LF) rest))"
      using True by (rule split_lines_LF)
    show ?thesis
      unfolding count_lines_step [OF True] "1.IH" [OF ne] s by simp
  next
    case False
    then show ?thesis
      by (simp add: count_lines_stop split_lines_no_LF)
  qed
qed

lemma find_loop_skips_blank:
  "find_loop h (filter (\<lambda>l. trim l \<noteq> []) ls) i = find_loop h ls i"
  by (induction ls arbitrary: h) simp_all

lemma dup_loop_skips_blank:
  "dup_loop (filter (\<lambda>l. trim l \<noteq> []) ls) n f = dup_loop ls n f"
  by (induction ls) auto

section \<open>Identifiers are sixteen decimal digits\<close>

lemma charAt_digits:
  assumes "0 \<le> r" "r < 1"
  shows "\<exists>d. charAt digits \<lfloor>r * real (length digits)\<rfloor> = [d] \<and> d \<in> set digits"
proof -
  have len: "length digits = 10" by (simp add: digits_def)
  have lo: "0 \<le> \<lfloor>r * 10\<rfloor>" using assms by simp
  have hi: "\<lfloor>r * 10\<rfloor> < 10" using assms by (simp add: floor_less_iff)
  from lo hi have "nat \<lfloor>r * 10\<rfloor> < length digits"
    unfolding len by linarith
  then have "digits ! nat \<lfloor>r * 10\<rfloor> \<in> set digits"
    by (rule nth_mem)
  moreover have "charAt digits \<lfloor>r * real (length digits)\<rfloor> = [digits ! nat \<lfloor>r * 10\<rfloor>]"
    unfolding charAt_def len using lo hi by simp
  ultimately show ?thesis by blast
qed

lemma gen_loop_digits:
  "(\<And>k. 0 \<le> rnd k \<and> rnd k < 1) \<Longrightarrow>
   length (gen_loop rnd len i result) = length result + (len - i) \<and>
   set (gen_loop rnd len i result) \<subseteq> set result \<union> set digits"
proof (induction rnd len i result rule: gen_loop.induct)
  case (1 rnd len i result)
  show ?case
  proof (cases "i < len")
    case True
    obtain d where d: "charAt digits \<lfloor>rnd i * real (length digits)\<rfloor> = [d]" "d \<in> set digits"
      using charAt_digits "1.prems" by blast
    have step: "gen_loop rnd len i result = gen_loop rnd len (i + 1) (result @ [d])"
      using True d by (subst gen_loop.simps) simp
    from "1.IH" [OF True "1.prems"] True d show ?thesis
      unfolding step by auto
  next
    case False
    then have "gen_loop rnd len i result = result"
      by (subst gen_loop.simps) simp
    with False show ?thesis by simp
  qed
qed

lemma gen_loop_unroll:
  "i < len \<Longrightarrow>
   gen_loop rnd len i result = gen_loop rnd len (i + 1) (result @ charAt digits \<lfloor>rnd i * 10\<rfloor>)"
  by (subst gen_loop.simps) (simp add: digits_def)

lemma gen_loop_done: "\<not> i < len \<Longrightarrow> gen_loop rnd len i result = result"
  by (subst gen_loop.simps) simp

text \<open>
  C10. Whatever values in \<open>[0, 1)\<close> the calls of \<^verbatim>\<open>Math.random()\<close> return,
  \<^verbatim>\<open>generateNumericalFileId()\<close> with its default length returns a string of exactly 16
  characters, each of them a decimal digit.
\<close>

theorem generateNumericalFileId_sixteen_digits:
  "(\<And>i. 0 \<le> rnd i \<and> rnd i < 1) \<Longrightarrow>
   length (generateNumericalFileId rnd) = 16 \<and>
   list_all (\<lambda>c. c \<in> set ''0123456789'') (generateNumericalFileId rnd)"
proof -
  assume r: "\<And>i. 0 \<le> rnd i \<and> rnd i < 1"
  have "length (gen_loop rnd 16 0 []) = length ([] :: string) + (16 - 0) \<and>
        set (gen_loop rnd 16 0 []) \<subseteq> set [] \<union> set digits"
    using r by (rule gen_loop_digits)
  then have "length (generateNumericalFileId rnd) = 16"
    and "\<forall>c \<in> set (generateNumericalFileId rnd). c \<in> set digits"
    unfolding generateNumericalFileId_def by auto
  then show ?thesis
    unfolding list_all_iff digits_def by blast
qed

theorem generateNumericalFileId_sixteen_digits_witness:
  "(\<forall>i. 0 \<le> real (i mod 10) / 10 \<and> real (i mod 10) / 10 < 1) \<and>
   generateNumericalFileId (\<lambda>i. real (i mod 10) / 10) = ''0123456789012345'' \<and>
   length (generateNumericalFileId (\<lambda>i. real (i mod 10) / 10)) = 16 \<and>
   list_all (\<lambda>c. c \<in> set ''0123456789'') (generateNumericalFileId (\<lambda>i. real (i mod 10) / 10))"
proof -
  have r: "\<And>i::nat. 0 \<le> real (i mod 10) / 10 \<and> real (i mod 10) / 10 < 1"
    by simp
  have v: "generateNumericalFileId (\<lambda>i. real (i mod 10) / 10) = ''0123456789012345''"
    by (simp add: generateNumericalFileId_def gen_loop_unroll gen_loop_done charAt_def digits_def)
  show ?thesis
    using generateNumericalFileId_sixteen_digits [of "\<lambda>i. real (i mod 10) / 10", OF r] r v
    by simp
qed

section \<open>The parser is total; blank lines are skipped\<close>

text \<open>
  C9. \<^verbatim>\<open>parseCSVLine\<close> returns on every input a list of at least one field. A quote
  that opens a field and is never closed makes the parser take the whole remainder of the
  line, commas included, into the current field. \<^verbatim>\<open>getFileCount\<close> counts the lines
  that are not blank, and the scans of \<^verbatim>\<open>findFileByIdStreaming\<close> and
  \<^verbatim>\<open>checkForDuplicate\<close> give the same result with the blank lines taken out.
\<close>

theorem parseCSVLine_total_blank_lines_skipped:
  "1 \<le> length (parseCSVLine line) \<and>
   (DQUOTE \<notin> set rest \<longrightarrow>
      parse_loop result current False (DQUOTE # rest) = result @ [trim (current @ rest)]) \<and>
   count_content (Some (c # cs)) =
     max 0 (int (length (filter (\<lambda>l. trim l \<noteq> []) (split_lines (c # cs))))
            - (if hasHeader (c # cs) then 1 else 0)) \<and>
   find_loop headerSkipped ls numericalFileId =
     find_loop headerSkipped (filter (\<lambda>l. trim l \<noteq> []) ls) numericalFileId \<and>
   dup_loop ls fileName fileId = dup_loop (filter (\<lambda>l. trim l \<noteq> []) ls) fileName fileId"
proof -
  have "parseCSVLine line \<noteq> []"
    unfolding parseCSVLine_def by (rule parse_loop_nonempty)
  then have "1 \<le> length (parseCSVLine line)"
    by (cases "parseCSVLine line") simp_all
  moreover have "DQUOTE \<notin> set rest \<longrightarrow>
      parse_loop result current False (DQUOTE # rest) = result @ [trim (current @ rest)]"
    by (simp add: parse_loop_Cons parse_loop_open_quote)
  moreover have "count_content (Some (c # cs)) =
     max 0 (int (length (filter (\<lambda>l. trim l \<noteq> []) (split_lines (c # cs))))
            - (if hasHeader (c # cs) then 1 else 0))"
    unfolding count_content_def count_lines_filter by simp
  ultimately show ?thesis
    by (simp only: find_loop_skips_blank dup_loop_skips_blank simp_thms)
qed

theorem parseCSVLine_total_blank_lines_skipped_witness:
  "DQUOTE \<notin> set ''b,c '' \<and>
   parseCSVLine ''a,\"b,c '' = [''a'', ''b,c''] \<and>
   parse_loop [] ''a'' False (DQUOTE # ''b,c '') = [trim ''ab,c '']"
proof -
  have q: "DQUOTE \<notin> set ''b,c ''"
    by simp
  have "parseCSVLine ''a,\"b,c '' = parse_loop [''a''] [] False (DQUOTE # ''b,c '')"
    by (simp add: parseCSVLine_def parse_loop_Cons trim_def trimEnd_def isWhiteSpace_def)
  then show ?thesis
    using q parseCSVLine_total_blank_lines_skipped [of "[]" "''b,c ''" "[''a'']" "[]"]
      parseCSVLine_total_blank_lines_skipped [of "[]" "''b,c ''" "[]" "''a''"]
    by (simp add: trim_def trimEnd_def isWhiteSpace_def)
qed

section \<open>The sweep\<close>







lemma deleteMessage_service:
  "snd (deleteMessage (service f) cid mid w) =
     w\<lparr>tg_deletes := tg_deletes w @ [(cid, mid)],
       console := console w @ (if delete_throws f cid mid then [DeleteMessageError mid FetchFailed] else [])\<rparr>"
  by (simp add: deleteMessage_def try_catch_def service_def)




lemma service_console:
  "console_error (service f) entry w = w\<lparr>console := console w @ [entry]\<rparr>"
  by (simp add: service_def)










section \<open>Decoding what was encoded\<close>

lemma index_of_nth: "distinct xs \<Longrightarrow> n < length xs \<Longrightarrow> index_of (xs ! n) xs = Some n"
proof (induction xs arbitrary: n)
  case Nil
  then show ?case by simp
next
  case (Cons x xs)
  show ?case
  proof (cases n)
    case 0
    then show ?thesis by simp
  next
    case (Suc m)
    with Cons.prems have "m < length xs" and "xs ! m \<in> set xs" and "x \<notin> set xs"
      by auto
    then have "x \<noteq> xs ! m" by auto
    with Suc Cons show ?thesis by auto
  qed
qed

lemma length_b64chars: "length b64chars = 64"
  by (simp add: b64chars_def)

lemma distinct_b64chars: "distinct b64chars"
  by (simp add: b64chars_def)

lemma b64chars_plain: "c \<in> set b64chars \<Longrightarrow> c \<noteq> CHR ''='' \<and> \<not> isAsciiWhitespace c"
  by (auto simp: b64chars_def isAsciiWhitespace_def)

lemma pack_div: "y < n \<Longrightarrow> (x * n + y) div n = (x::nat)"
  by simp

lemma pack_mod: "y < n \<Longrightarrow> (x * n + y) mod n = (y::nat)"
  by simp

lemma pack_lt: "x < m \<Longrightarrow> y < n \<Longrightarrow> x * n + y < m * (n::nat)"
proof -
  assume "x < m" "y < n"
  then have "x * n + y < x * n + n" by simp
  also have "\<dots> = Suc x * n" by simp
  also have "\<dots> \<le> m * n" using \<open>x < m\<close> by (intro mult_le_mono1) simp
  finally show ?thesis .
qed

lemma div_bound: "a < m * n \<Longrightarrow> a div n < (m::nat)"
  by (simp add: less_mult_imp_div_less)

lemma sextets_bound:
  "\<forall>b \<in> set bytes. b < 256 \<Longrightarrow> \<forall>k \<in> set (sextets bytes). k < 64"
proof (induction bytes rule: sextets.induct)
  case (1 a b c bytes)
  then have "a < 256" "b < 256" "c < 256" by auto
  then have "a div 4 < 64" "(a mod 4) * 16 + b div 16 < 64" "(b mod 16) * 4 + c div 64 < 64" "c mod 64 < 64"
    using div_bound [of a 64 4] pack_lt [of "a mod 4" 4 "b div 16" 16] div_bound [of b 16 16]
      pack_lt [of "b mod 16" 16 "c div 64" 4] div_bound [of c 4 64]
    by simp_all
  with 1 show ?case by auto
next
  case (2 a b)
  then have "a < 256" "b < 256" by auto
  then have "a div 4 < 64" "(a mod 4) * 16 + b div 16 < 64" "(b mod 16) * 4 < 64"
    using div_bound [of a 64 4] pack_lt [of "a mod 4" 4 "b div 16" 16] div_bound [of b 16 16]
      pack_lt [of "b mod 16" 16 0 4]
    by simp_all
  then show ?case by auto
next
  case (3 a)
  then have "a < 256" by auto
  then have "a div 4 < 64" "(a mod 4) * 16 < 64"
    using div_bound [of a 64 4] pack_lt [of "a mod 4" 4 0 16]
    by simp_all
  then show ?case by auto
next
  case 4
  show ?case by simp
qed

lemma octets_sextets: "\<forall>b \<in> set bytes. b < 256 \<Longrightarrow> octets (sextets bytes) = bytes"
proof (induction bytes rule: sextets.induct)
  case (1 a b c bytes)
  then have "a < 256" "b < 256" "c < 256" by auto
  then have "a div 4 * 4 + ((a mod 4) * 16 + b div 16) div 16 = a"
    "(((a mod 4) * 16 + b div 16) mod 16) * 16 + ((b mod 16) * 4 + c div 64) div 4 = b"
    "(((b mod 16) * 4 + c div 64) mod 4) * 64 + c mod 64 = c"
    using pack_div [of "b div 16" 16 "a mod 4"] div_bound [of b 16 16]
      pack_mod [of "b div 16" 16 "a mod 4"] pack_div [of "c div 64" 4 "b mod 16"]
      div_bound [of c 4 64] pack_mod [of "c div 64" 4 "b mod 16"]
    by simp_all
  with 1 show ?case by simp
next
  case (2 a b)
  then have "a < 256" "b < 256" by auto
  then have "a div 4 * 4 + ((a mod 4) * 16 + b div 16) div 16 = a"
    "(((a mod 4) * 16 + b div 16) mod 16) * 16 + ((b mod 16) * 4) div 4 = b"
    using pack_div [of "b div 16" 16 "a mod 4"] div_bound [of b 16 16]
      pack_mod [of "b div 16" 16 "a mod 4"]
    by simp_all
  then show ?case by simp
next
  case (3 a)
  have "a div 4 * 4 + ((a mod 4) * 16) div 16 = a"
    by simp
  then show ?case by simp
next
  case 4
  show ?case by simp
qed

lemma mod3_step: "Suc (Suc (Suc n)) mod 3 = n mod 3"
proof -
  have "Suc (Suc (Suc n)) = 3 + n" by simp
  then show ?thesis by (simp only: mod_add_self1)
qed

lemma mod4_step: "Suc (Suc (Suc (Suc n))) mod 4 = n mod 4"
proof -
  have "Suc (Suc (Suc (Suc n))) = 4 + n" by simp
  then show ?thesis by (simp only: mod_add_self1)
qed

lemma mod3_cases: "(n::nat) mod 3 = 0 \<or> n mod 3 = 1 \<or> n mod 3 = 2"
proof -
  have "n mod 3 < 3" by simp
  then show ?thesis by (simp only: numeral_3_eq_3 less_Suc_eq) auto
qed

lemma length_sextets_mod:
  "length (sextets bytes) mod 4 =
     (if length bytes mod 3 = 0 then 0 else length bytes mod 3 + 1)"
  by (induction bytes rule: sextets.induct) (simp_all add: mod3_step mod4_step)

lemma of_char_bound: "(of_char c :: nat) < 256"
proof -
  have "(of_char c :: nat) mod 256 = of_char c" by simp
  then show ?thesis
    by (metis mod_less_divisor zero_less_numeral)
qed

lemma those_index_of:
  "\<forall>k \<in> set ks. k < 64 \<Longrightarrow>
   those (map (\<lambda>c. index_of c b64chars) (map (\<lambda>k. b64chars ! k) ks)) = Some ks"
proof (induction ks)
  case Nil
  show ?case by simp
next
  case (Cons k ks)
  then have "index_of (b64chars ! k) b64chars = Some k"
    using index_of_nth [OF distinct_b64chars, of k] by (simp add: length_b64chars)
  with Cons show ?case by simp
qed

lemma body_plain:
  assumes "\<forall>k \<in> set ks. k < 64" and "c \<in> set (map (\<lambda>k. b64chars ! k) ks)"
  shows "c \<noteq> CHR ''='' \<and> \<not> isAsciiWhitespace c"
proof -
  from assms obtain k where "k < 64" "c = b64chars ! k" by auto
  then have "c \<in> set b64chars"
    using nth_mem [of k b64chars] by (simp add: length_b64chars)
  then show ?thesis by (rule b64chars_plain)
qed

lemma strip_padding_0:
  assumes "\<forall>c \<in> set body. c \<noteq> CHR ''=''"
  shows "strip_padding body = body"
proof -
  have "drop (length body - 2) body \<noteq> ''==''"
  proof
    assume "drop (length body - 2) body = ''==''"
    then have "CHR ''='' \<in> set (drop (length body - 2) body)" by simp
    then have "CHR ''='' \<in> set body" by (rule in_set_dropD)
    with assms show False by blast
  qed
  moreover have "drop (length body - 1) body \<noteq> ''=''"
  proof
    assume "drop (length body - 1) body = ''=''"
    then have "CHR ''='' \<in> set (drop (length body - 1) body)" by simp
    then have "CHR ''='' \<in> set body" by (rule in_set_dropD)
    with assms show False by blast
  qed
  ultimately show ?thesis
    by (simp add: strip_padding_def)
qed

lemma strip_padding_2:
  assumes "length body mod 4 = 2"
  shows "strip_padding (body @ ''=='') = body"
proof -
  have "length (body @ ''=='') mod 4 = 0"
    using assms by (simp add: mod_Suc)
  then show ?thesis
    by (simp add: strip_padding_def)
qed

lemma strip_padding_1:
  assumes "\<forall>c \<in> set body. c \<noteq> CHR ''=''" and "length body mod 4 = 3"
  shows "strip_padding (body @ ''='') = body"
proof -
  have len: "length (body @ ''='') mod 4 = 0"
    using assms(2) by (simp add: mod_Suc)
  from assms(2) have "body \<noteq> []" by auto
  then obtain xs x where body: "body = xs @ [x]"
    by (cases body rule: rev_cases) auto
  with assms(1) have "x \<noteq> CHR ''=''" by simp
  then have "drop (length (body @ ''='') - 2) (body @ ''='') \<noteq> ''==''"
    by (simp add: body)
  then show ?thesis
    using len by (simp add: strip_padding_def)
qed

lemma base64_no_ws: "filter (\<lambda>c. \<not> isAsciiWhitespace c) (base64 s) = base64 s"
proof -
  have bytes: "\<forall>b \<in> set (map of_char s). (b::nat) < 256"
    by (simp add: of_char_bound)
  have ks: "\<forall>k \<in> set (sextets (map of_char s)). k < 64"
    using bytes by (rule sextets_bound)
  have plain: "\<forall>c \<in> set (map (\<lambda>k. b64chars ! k) (sextets (map of_char s))). \<not> isAsciiWhitespace c"
    using body_plain [OF ks] by blast
  have pad: "\<forall>c \<in> set (padding (length s)). \<not> isAsciiWhitespace c"
    by (simp add: padding_def isAsciiWhitespace_def)
  have "\<forall>c \<in> set (base64 s). \<not> isAsciiWhitespace c"
    unfolding base64_def using plain pad by auto
  then show ?thesis
    by (simp add: filter_id_conv)
qed

lemma strip_padding_cases:
  assumes noeq: "\<forall>c \<in> set body. c \<noteq> CHR ''=''"
    and len: "length body mod 4 = (if n mod 3 = 0 then 0 else n mod 3 + 1)"
  shows "strip_padding (body @ padding n) = body \<and> length body mod 4 \<noteq> 1"
proof -
  consider (a) "n mod 3 = 0" | (b) "n mod 3 = 1" | (c) "n mod 3 = 2"
    using mod3_cases [of n] by auto
  then show ?thesis
  proof cases
    case a
    then have p: "padding n = []" by (simp add: padding_def)
    from a len have l: "length body mod 4 = 0" by simp
    show ?thesis
      unfolding p using strip_padding_0 [OF noeq] l by simp
  next
    case b
    then have p: "padding n = ''==''" by (simp add: padding_def)
    from b len have l: "length body mod 4 = 2" by simp
    show ?thesis
      unfolding p using strip_padding_2 [OF l] l by simp
  next
    case c
    then have p: "padding n = ''=''" by (simp add: padding_def)
    from c len have l: "length body mod 4 = 3" by simp
    show ?thesis
      unfolding p using strip_padding_1 [OF noeq l] l by simp
  qed
qed

lemma atob_base64: "atob (base64 s) = Some s"
proof -
  let ?ks = "sextets (map of_char s)"
  let ?body = "map (\<lambda>k. b64chars ! k) ?ks"
  have bytes: "\<forall>b \<in> set (map of_char s). (b::nat) < 256"
    by (simp add: of_char_bound)
  have ks: "\<forall>k \<in> set ?ks. k < 64"
    using bytes by (rule sextets_bound)
  have noeq: "\<forall>c \<in> set ?body. c \<noteq> CHR ''=''"
    using body_plain [OF ks] by blast
  have len: "length ?body mod 4 = (if length s mod 3 = 0 then 0 else length s mod 3 + 1)"
    using length_sextets_mod [of "map of_char s"] by simp
  have strip: "strip_padding (base64 s) = ?body" and not1: "length ?body mod 4 \<noteq> 1"
    unfolding base64_def using strip_padding_cases [OF noeq len] by blast+
  have dec: "those (map (\<lambda>c. index_of c b64chars) ?body) = Some ?ks"
    using ks by (rule those_index_of)
  have "octets ?ks = map of_char s"
    using bytes by (rule octets_sextets)
  then have oct: "map char_of (octets ?ks) = s"
    by (simp add: map_idI)
  have "atob (base64 s) =
      (if length ?body mod 4 = 1 then None
       else map_option (\<lambda>ks. map char_of (octets ks)) (those (map (\<lambda>c. index_of c b64chars) ?body)))"
    unfolding atob_def base64_no_ws strip by (simp only: Let_def)
  then show ?thesis
    unfolding dec using not1 oct by simp
qed

lemma btoa_throws: "btoa s = None \<longleftrightarrow> \<not> latin1 s"
  by (simp add: btoa_def)

lemma atob_btoa: "btoa s = Some b \<Longrightarrow> atob b = Some (narrow s)"
  by (auto simp: btoa_def atob_base64 split: if_splits)

section \<open>Reading the whole store\<close>

lemma service_get_contents:
  "get_contents (service f) w =
     (case csv_file w of
        None \<Rightarrow> Contents404
      | Some (bytes, h) \<Rightarrow>
          ContentsOk h (length bytes) (if length bytes > GITHUB_SIZE_LIMIT then [] else base64 bytes), w)"
  by (simp add: service_def)

lemma service_get_blob:
  "get_blob (service f) h w =
     (case csv_file w of
        None \<Rightarrow> BlobNotOk 404
      | Some (bytes, h') \<Rightarrow> if h = h' then BlobOk ''base64'' (base64 bytes) else BlobNotOk 404, w)"
  by (simp add: service_def)

lemma service_put_contents:
  "put_contents (service f) (base64 bytes) h w =
     (case put_file bytes h (csv_file w) (fresh w) of
        None \<Rightarrow> (PutNotOk 409, w)
      | Some file \<Rightarrow> (PutOk, w\<lparr>csv_file := file, fresh := Suc (fresh w)\<rparr>))"
  by (simp add: service_def atob_base64)

lemma getFileInfo_service:
  "getFileInfo (service f) w =
     ((case csv_file w of
         None \<Rightarrow> no_file
       | Some (bytes, h) \<Rightarrow>
           \<lparr>exists = True, sha = Some h, size_bytes = length bytes,
            isLarge = (length bytes > GITHUB_SIZE_LIMIT)\<rparr>), w)"
  by (simp add: getFileInfo_def service_get_contents split: option.splits)

lemma downloadLargeFile_service:
  "downloadLargeFile (service f) w = (map_option fst (csv_file w), w)"
  by (cases "csv_file w")
     (auto simp: downloadLargeFile_def getFileInfo_service no_file_def service_get_blob atob_base64)

lemma getFileContent_service:
  "getFileContent (service f) w = (map_option fst (csv_file w), w)"
  by (cases "csv_file w")
     (auto simp: getFileContent_def getFileInfo_service no_file_def downloadLargeFile_service
        service_get_contents atob_base64)

lemma getFileContent_scripted_trace:
  "snd (getFileContent (scripted probe blob) []) =
     (case probe of
        ContentsOk h n content \<Rightarrow>
          if n > GITHUB_SIZE_LIMIT then [GetContents, GetContents, GetBlob h]
          else [GetContents, GetContents]
      | _ \<Rightarrow> [GetContents])"
  by (cases probe; cases "blob (case probe of ContentsOk h n content \<Rightarrow> h | _ \<Rightarrow> 0)")
     (simp_all add: getFileContent_def getFileInfo_def downloadLargeFile_def scripted_def no_file_def)

lemma getFileContent_scripted_content:
  "fst (getFileContent (scripted (ContentsOk h n content) (\<lambda>h'. BlobOk ''base64'' content)) []) =
     atob content"
  by (simp add: getFileContent_def getFileInfo_def downloadLargeFile_def scripted_def)

text \<open>
  C8. The ceiling is 1 MiB. Whatever the store replies, \<^verbatim>\<open>getFileContent\<close> probes
  once and then reads the blob behind the token of the probe exactly when the probe was
  answered with a size above the ceiling, and the path otherwise (and nothing when the
  probe found no file). Both routes decode the payload they receive in the same way, so a
  payload served on either route gives the same content; on the modelled store both
  return the stored bytes, whatever their size.
\<close>

theorem getFileContent_route_by_size_same_content:
  "GITHUB_SIZE_LIMIT = 1048576 \<and>
   snd (getFileContent (scripted probe blob) []) =
     (case probe of
        ContentsOk h n content \<Rightarrow>
          if n > GITHUB_SIZE_LIMIT then [GetContents, GetContents, GetBlob h]
          else [GetContents, GetContents]
      | _ \<Rightarrow> [GetContents]) \<and>
   fst (getFileContent (scripted (ContentsOk h n content) (\<lambda>h'. BlobOk ''base64'' content)) []) =
     atob content \<and>
   getFileContent (service f) w = (map_option fst (csv_file w), w) \<and>
   downloadLargeFile (service f) w = (map_option fst (csv_file w), w)"
  using getFileContent_scripted_trace [of probe blob] getFileContent_scripted_content [of h n content]
    getFileContent_service [of f w] downloadLargeFile_service [of f w]
  by (simp only: GITHUB_SIZE_LIMIT_def simp_thms)

section \<open>Trimming, lines and fields\<close>

lemma trimEnd_append_ws: "list_all isWhiteSpace w \<Longrightarrow> trimEnd (s @ w) = trimEnd s"
proof -
  assume "list_all isWhiteSpace w"
  then have "\<And>x. x \<in> set (rev w) \<Longrightarrow> isWhiteSpace x"
    by (simp add: list_all_iff)
  then have "dropWhile isWhiteSpace (rev w @ rev s) = dropWhile isWhiteSpace (rev s)"
    by (rule dropWhile_append2)
  then show ?thesis
    by (simp add: trimEnd_def)
qed

lemma trimEnd_append: "\<not> list_all isWhiteSpace b \<Longrightarrow> trimEnd (a @ b) = a @ trimEnd b"
proof -
  assume "\<not> list_all isWhiteSpace b"
  then obtain x where "x \<in> set (rev b)" "\<not> isWhiteSpace x"
    by (auto simp: list_all_iff)
  then have "dropWhile isWhiteSpace (rev b @ rev a) = dropWhile isWhiteSpace (rev b) @ rev a"
    by (rule dropWhile_append1)
  then show ?thesis
    by (simp add: trimEnd_def)
qed

lemma trimEnd_decomp: "\<exists>w. list_all isWhiteSpace w \<and> s = trimEnd s @ w"
proof -
  have "rev s = takeWhile isWhiteSpace (rev s) @ dropWhile isWhiteSpace (rev s)"
    by simp
  then have "s = rev (dropWhile isWhiteSpace (rev s)) @ rev (takeWhile isWhiteSpace (rev s))"
    by (metis rev_append rev_rev_ident)
  moreover have "list_all isWhiteSpace (rev (takeWhile isWhiteSpace (rev s)))"
    by (auto simp: list_all_iff dest: set_takeWhileD)
  ultimately show ?thesis
    unfolding trimEnd_def by blast
qed

lemma trimEnd_blank: "list_all isWhiteSpace s \<Longrightarrow> trimEnd s = []"
  using trimEnd_append_ws [of s "[]"] by (simp add: trimEnd_def)

lemma trimEnd_last: "trimEnd s \<noteq> [] \<Longrightarrow> \<not> isWhiteSpace (last (trimEnd s))"
proof -
  assume "trimEnd s \<noteq> []"
  then have "dropWhile isWhiteSpace (rev s) \<noteq> []"
    by (simp add: trimEnd_def)
  then have "\<not> isWhiteSpace (hd (dropWhile isWhiteSpace (rev s)))"
    by (rule hd_dropWhile)
  then show ?thesis
    using \<open>dropWhile isWhiteSpace (rev s) \<noteq> []\<close> by (simp add: trimEnd_def last_rev)
qed

lemma trimEnd_fixed: "s = [] \<or> \<not> isWhiteSpace (last s) \<Longrightarrow> trimEnd s = s"
  by (cases s rule: rev_cases) (auto simp: trimEnd_def)

lemma trimEnd_idem: "trimEnd (trimEnd s) = trimEnd s"
  using trimEnd_last [of s] by (cases "trimEnd s = []") (auto simp: trimEnd_fixed)

lemma trim_blank_iff: "trim s = [] \<longleftrightarrow> list_all isWhiteSpace s"
proof
  assume "trim s = []"
  then have "trimEnd (dropWhile isWhiteSpace s) = []"
    by (simp add: trim_def)
  then have "list_all isWhiteSpace (dropWhile isWhiteSpace s)"
    using trimEnd_decomp [of "dropWhile isWhiteSpace s"] by auto
  then have "dropWhile isWhiteSpace s = []"
    using hd_dropWhile [of isWhiteSpace s] by (cases "dropWhile isWhiteSpace s") auto
  then show "list_all isWhiteSpace s"
    by (simp add: list_all_iff dropWhile_eq_Nil_conv)
next
  assume "list_all isWhiteSpace s"
  then have e: "dropWhile isWhiteSpace s = []"
    by (simp add: list_all_iff dropWhile_eq_Nil_conv)
  show "trim s = []"
    unfolding trim_def e by (simp add: trimEnd_def)
qed

lemma trim_append_ws: "list_all isWhiteSpace w \<Longrightarrow> trim (s @ w) = trim s"
proof (cases "list_all isWhiteSpace s")
  case True
  assume "list_all isWhiteSpace w"
  with True have "list_all isWhiteSpace (s @ w)" by simp
  with True show ?thesis by (simp only: trim_blank_iff [symmetric])
next
  case False
  assume w: "list_all isWhiteSpace w"
  from False obtain x where "x \<in> set s" "\<not> isWhiteSpace x"
    by (auto simp: list_all_iff)
  then have "dropWhile isWhiteSpace (s @ w) = dropWhile isWhiteSpace s @ w"
    by (rule dropWhile_append1)
  then show ?thesis
    by (simp add: trim_def trimEnd_append_ws [OF w])
qed

lemma trim_trimEnd: "trim (trimEnd s) = trim s"
proof -
  obtain w where "list_all isWhiteSpace w" "s = trimEnd s @ w"
    using trimEnd_decomp by blast
  then show ?thesis
    using trim_append_ws [of w "trimEnd s"] by simp
qed

lemma trim_fixed:
  "s = [] \<or> (\<not> isWhiteSpace (hd s) \<and> \<not> isWhiteSpace (last s)) \<Longrightarrow> trim s = s"
  by (cases s) (auto simp: trim_def trimEnd_fixed)

lemma split_lines_append:
  "split_lines (a @ b) =
     butlast (split_lines a) @ [last (split_lines a) @ hd (split_lines b)] @ tl (split_lines b)"
proof (induction a)
  case Nil
  show ?case
    using split_lines_not_Nil [of b] by (cases "split_lines b") simp_all
next
  case (Cons c a)
  show ?case
  proof (cases "c = LF")
    case True
    then show ?thesis
      using Cons.IH split_lines_not_Nil [of a] by simp
  next
    case False
    obtain l ls where a: "split_lines a = l # ls"
      using split_lines_not_Nil [of a] by (cases "split_lines a") auto
    obtain m ms where ab: "split_lines (a @ b) = m # ms"
      using split_lines_not_Nil [of "a @ b"] by (cases "split_lines (a @ b)") auto
    show ?thesis
      using False Cons.IH a ab by (cases ls) auto
  qed
qed

lemma split_lines_append_LF: "split_lines (a @ LF # b) = split_lines a @ split_lines b"
  using split_lines_append [of a "LF # b"] split_lines_not_Nil [of a]
  by simp

lemma split_lines_snoc:
  "x \<noteq> LF \<Longrightarrow> split_lines (a @ [x]) = butlast (split_lines a) @ [last (split_lines a) @ [x]]"
  using split_lines_append [of a "[x]"] by simp

lemma data_lines_append_LF: "data_lines (a @ LF # b) = data_lines a @ data_lines b"
  by (simp add: data_lines_def split_lines_append_LF)

lemma data_lines_snoc_ws: "isWhiteSpace x \<Longrightarrow> data_lines (a @ [x]) = data_lines a"
proof (cases "x = LF")
  case True
  then show ?thesis
    using data_lines_append_LF [of a "[]"] by (simp add: data_lines_def trim_def trimEnd_def)
next
  case False
  assume x: "isWhiteSpace x"
  have "split_lines a = butlast (split_lines a) @ [last (split_lines a)]"
    using split_lines_not_Nil [of a] by simp
  then have "data_lines a =
      filter (\<lambda>l. trim l \<noteq> []) (map trimEnd (butlast (split_lines a) @ [last (split_lines a)]))"
    unfolding data_lines_def by simp
  moreover have "trimEnd (last (split_lines a) @ [x]) = trimEnd (last (split_lines a))"
    using x by (simp add: trimEnd_append_ws)
  ultimately show ?thesis
    unfolding data_lines_def split_lines_snoc [OF False] by simp
qed

lemma data_lines_append_ws: "list_all isWhiteSpace w \<Longrightarrow> data_lines (a @ w) = data_lines a"
proof (induction w arbitrary: a)
  case Nil
  show ?case by simp
next
  case (Cons x w)
  from Cons.prems have x: "isWhiteSpace x" and w: "list_all isWhiteSpace w"
    by simp_all
  have "data_lines (a @ x # w) = data_lines ((a @ [x]) @ w)"
    by simp
  also have "\<dots> = data_lines (a @ [x])"
    using w by (rule Cons.IH)
  also have "\<dots> = data_lines a"
    using x by (rule data_lines_snoc_ws)
  finally show ?case .
qed

lemma data_lines_trimEnd: "data_lines (trimEnd c) = data_lines c"
proof -
  obtain w where "list_all isWhiteSpace w" "c = trimEnd c @ w"
    using trimEnd_decomp by blast
  then show ?thesis
    using data_lines_append_ws [of w "trimEnd c"] by simp
qed

lemma data_lines_single:
  "LF \<notin> set r \<Longrightarrow> trimEnd r = r \<Longrightarrow> trim r \<noteq> [] \<Longrightarrow> data_lines r = [r]"
  by (simp add: data_lines_def split_lines_no_LF)

lemma data_lines_Nil: "data_lines [] = []"
  by (simp add: data_lines_def trim_def trimEnd_def)

lemma parse_loop_plain:
  "plain p \<Longrightarrow> parse_loop res cur False (p @ rest) = parse_loop res (cur @ p) False rest"
proof (induction p arbitrary: cur)
  case Nil
  show ?case by simp
next
  case (Cons c p)
  then have "c \<noteq> DQUOTE" "c \<noteq> COMMA" "plain p"
    by (auto simp: plain_def)
  then show ?case
    using Cons.IH [of "cur @ [c]"] by (simp add: parse_loop_Cons)
qed

lemma parse_loop_comma:
  "parse_loop res cur False (COMMA # rest) = parse_loop (res @ [trim cur]) [] False rest"
  by (simp add: parse_loop_Cons)

lemma parse_loop_quoted:
  "rest = [] \<or> hd rest \<noteq> DQUOTE \<Longrightarrow>
   parse_loop res cur True (doubled n @ DQUOTE # rest) = parse_loop res (cur @ n) False rest"
proof (induction n arbitrary: cur)
  case Nil
  then show ?case
    by (cases rest) (simp_all add: doubled_eq parse_loop_Cons)
next
  case (Cons c n)
  show ?case
  proof (cases "c = DQUOTE")
    case True
    then show ?thesis
      using Cons.IH [OF Cons.prems, of "cur @ [DQUOTE]"]
      by (simp add: doubled_eq parse_loop_Cons)
  next
    case False
    then show ?thesis
      using Cons.IH [OF Cons.prems, of "cur @ [c]"]
      by (simp add: doubled_eq parse_loop_Cons)
  qed
qed

lemma parse_loop_open:
  "parse_loop res cur False (DQUOTE # rest) = parse_loop res cur True rest"
  by (simp add: parse_loop_Cons)

lemma parse_escaped:
  "parse_loop res [] False (quoted name @ COMMA # rest) =
     parse_loop (res @ [trim name]) [] False rest"
proof (cases "COMMA \<in> set name \<or> DQUOTE \<in> set name \<or> LF \<in> set name")
  case True
  then have "quoted name @ COMMA # rest = DQUOTE # doubled name @ DQUOTE # COMMA # rest"
    by (simp add: quoted_eq)
  then show ?thesis
    using parse_loop_quoted [of "COMMA # rest" res "[]" name]
    by (simp add: parse_loop_open parse_loop_comma)
next
  case False
  then have "quoted name = name" "plain name"
    by (simp_all add: quoted_eq plain_def)
  then show ?thesis
    using parse_loop_plain [of name res "[]" "COMMA # rest"]
    by (simp add: parse_loop_comma)
qed

lemma parse_csv_row:
  assumes "plain numericalFileId" "plain fileId" "plain fileType"
  shows "parseCSVLine (row_text numericalFileId fileId fileName fileType) =
           [trim numericalFileId, trim fileId, trim fileName, trim fileType]"
proof -
  let ?r3 = "quoted fileName @ COMMA # fileType"
  let ?r2 = "fileId @ COMMA # ?r3"
  have "parseCSVLine (row_text numericalFileId fileId fileName fileType) =
        parse_loop [] [] False (numericalFileId @ COMMA # ?r2)"
    by (simp add: parseCSVLine_def row_text_eq)
  also have "\<dots> = parse_loop [trim numericalFileId] [] False ?r2"
    using parse_loop_plain [OF assms(1), of "[]" "[]" "COMMA # ?r2"]
    by (simp add: parse_loop_comma)
  also have "\<dots> = parse_loop [trim numericalFileId, trim fileId] [] False ?r3"
    using parse_loop_plain [OF assms(2), of "[trim numericalFileId]" "[]" "COMMA # ?r3"]
    by (simp add: parse_loop_comma)
  also have "\<dots> = parse_loop [trim numericalFileId, trim fileId, trim fileName] [] False fileType"
    using parse_escaped [of "[trim numericalFileId, trim fileId]" fileName fileType]
    by simp
  also have "\<dots> = [trim numericalFileId, trim fileId, trim fileName, trim fileType]"
    using parse_loop_plain [OF assms(3), of "[trim numericalFileId, trim fileId, trim fileName]" "[]" "[]"]
    by (simp add: parse_loop_Nil)
  finally show ?thesis .
qed

lemma ws_not_special: "isWhiteSpace c \<Longrightarrow> c \<noteq> DQUOTE \<and> c \<noteq> COMMA"
  by (auto simp: isWhiteSpace_def)

lemma parse_loop_ws:
  "list_all isWhiteSpace w \<Longrightarrow> parse_loop res cur q w = res @ [trim (cur @ w)]"
proof (induction w arbitrary: cur)
  case Nil
  show ?case by (simp add: parse_loop_Nil)
next
  case (Cons c w)
  then have "isWhiteSpace c" and w: "list_all isWhiteSpace w"
    by simp_all
  then have "c \<noteq> DQUOTE" "c \<noteq> COMMA"
    using ws_not_special by blast+
  then show ?case
    using Cons.IH [OF w, of "cur @ [c]"] by (simp add: parse_loop_Cons)
qed

lemma parse_loop_trailing_ws:
  "list_all isWhiteSpace w \<Longrightarrow> parse_loop res cur q (rest @ w) = parse_loop res cur q rest"
proof (induction res cur q rest rule: parse_loop.induct)
  case (1 result current inQuotes rest)
  note w = \<open>list_all isWhiteSpace w\<close>
  show ?case
  proof (cases rest)
    case Nil
    then show ?thesis
      using parse_loop_ws [OF w, of result current inQuotes] trim_append_ws [OF w, of current]
      by (simp add: parse_loop_Nil)
  next
    case (Cons c after)
    have look: "(case after @ w of d # _ \<Rightarrow> d = DQUOTE | [] \<Rightarrow> False) =
                (case after of d # _ \<Rightarrow> d = DQUOTE | [] \<Rightarrow> False)"
      using w ws_not_special by (cases after; cases w) auto
    have dr: "(case after of d # _ \<Rightarrow> d = DQUOTE | [] \<Rightarrow> False) \<Longrightarrow>
        drop 1 (after @ w) = drop 1 after @ w"
      by (cases after) simp_all
    show ?thesis
      using "1.IH" [OF Cons] w look dr
      by (simp add: Cons parse_loop_Cons)
  qed
qed

lemma parseCSVLine_trimEnd: "parseCSVLine (trimEnd l) = parseCSVLine l"
proof -
  obtain w where "list_all isWhiteSpace w" "l = trimEnd l @ w"
    using trimEnd_decomp by blast
  then show ?thesis
    unfolding parseCSVLine_def using parse_loop_trailing_ws [of w "[]" "[]" False "trimEnd l"]
    by simp
qed

lemma find_loop_trimEnd: "find_loop h (map trimEnd ls) i = find_loop h ls i"
  by (induction ls arbitrary: h) (simp_all add: trim_trimEnd)

lemma dup_loop_trimEnd: "dup_loop (map trimEnd ls) n f = dup_loop ls n f"
  by (induction ls) (auto simp: trim_trimEnd parseCSVLine_trimEnd)

lemma find_loop_data_lines: "find_loop h (data_lines c) i = find_loop h (split_lines c) i"
  unfolding data_lines_def find_loop_skips_blank find_loop_trimEnd ..

lemma dup_loop_data_lines: "dup_loop (data_lines c) n f = dup_loop (split_lines c) n f"
  unfolding data_lines_def dup_loop_skips_blank dup_loop_trimEnd ..

lemma find_in_content_data_lines:
  "find_in_content (Some c) i = find_loop False (data_lines c) i"
proof (cases "c = []")
  case True
  then show ?thesis
    by (simp add: find_in_content_def data_lines_Nil)
next
  case False
  then show ?thesis
    by (simp add: find_in_content_def find_loop_data_lines)
qed

lemma dup_in_content_data_lines:
  "dup_in_content (Some c) n f = dup_loop (data_lines c) n f"
proof (cases "c = []")
  case True
  then show ?thesis
    by (simp add: dup_in_content_def data_lines_Nil)
next
  case False
  then show ?thesis
    by (simp add: dup_in_content_def dup_loop_data_lines)
qed

lemma length_data_lines:
  "length (data_lines c) = length (filter (\<lambda>l. trim l \<noteq> []) (split_lines c))"
  by (simp add: data_lines_def filter_map comp_def trim_trimEnd)

lemma count_content_data_lines:
  "c \<noteq> [] \<Longrightarrow>
   count_content (Some c) = max 0 (int (length (data_lines c)) - (if hasHeader c then 1 else 0))"
  by (simp add: count_content_def count_lines_filter length_data_lines)

lemma header_no_LF: "LF \<notin> set header_line"
  by (simp add: header_line_def)

lemma header_trim: "trim header_line = header_line"
  by (rule trim_fixed) (simp add: header_line_def isWhiteSpace_def)

lemma header_trimEnd: "trimEnd header_line = header_line"
  by (rule trimEnd_fixed) (simp add: header_line_def isWhiteSpace_def)

lemma header_not_blank: "header_line \<noteq> []"
  by (simp add: header_line_def)

lemma header_marker: "str_includes (toLowerCase header_line) ''numerical''"
  by (simp add: header_line_def toLowerCase_def lowerChar_def startsWith_def)

lemma header_fields:
  "parseCSVLine header_line = [''numerical_file_id'', ''file_id'', ''file_name'', ''file_type'']"
proof -
  have "header_line = row_text ''numerical_file_id'' ''file_id'' ''file_name'' ''file_type''"
    by (simp add: header_line_def row_text_eq quoted_eq)
  moreover have "trim ''numerical_file_id'' = ''numerical_file_id''" "trim ''file_id'' = ''file_id''"
    "trim ''file_name'' = ''file_name''" "trim ''file_type'' = ''file_type''"
    by (rule trim_fixed, simp add: isWhiteSpace_def)+
  ultimately show ?thesis
    using parse_csv_row [of "''numerical_file_id''" "''file_id''" "''file_type''" "''file_name''"]
    by (simp add: plain_def)
qed

lemma appendToCSV_service:
  "appendToCSV (service f) i r n t w =
     (if content_of w = Some [] then (Inl ReadFailed, w)
      else if latin1 i \<and> latin1 r \<and> latin1 n \<and> latin1 t
      then (Inr (),
            w\<lparr>csv_file := Some (next_content (content_of w) (narrow (csv_row i r n t)), fresh w),
              fresh := Suc (fresh w)\<rparr>)
      else (Inl InvalidCharacterError, w))"
  by (cases "csv_file w")
     (auto simp: appendToCSV_def getFileInfo_service getFileContent_service no_file_def
        createFile_def updateFile_def btoa_def latin1_csv_row service_put_contents put_file_def
        content_of_def next_content_def)

lemma headed_iff: "headed c \<longleftrightarrow> (\<exists>rest. c = header_line @ LF # rest)"
proof
  assume "headed c"
  then have "take (length (header_line @ [LF])) c = header_line @ [LF]"
    by (simp add: headed_def startsWith_def)
  then have "c = (header_line @ [LF]) @ drop (length (header_line @ [LF])) c"
    by (metis append_take_drop_id)
  then have "c = header_line @ LF # drop (length (header_line @ [LF])) c"
    by simp
  then show "\<exists>rest. c = header_line @ LF # rest" ..
next
  assume "\<exists>rest. c = header_line @ LF # rest"
  then show "headed c"
    by (auto simp: headed_def startsWith_def)
qed

lemma headed_next: "content = None \<or> (\<exists>c. content = Some c \<and> headed c) \<Longrightarrow> headed (next_content content row)"
proof (cases content)
  case None
  then show ?thesis
    by (simp add: next_content_def headed_iff)
next
  case (Some c)
  assume "content = None \<or> (\<exists>c. content = Some c \<and> headed c)"
  with Some obtain rest where c: "c = header_line @ LF # rest"
    by (auto simp: headed_iff)
  show ?thesis
  proof (cases "list_all isWhiteSpace (LF # rest)")
    case True
    then have "trimEnd c = header_line"
      unfolding c using trimEnd_append_ws [of "LF # rest" header_line] header_trimEnd by simp
    then show ?thesis
      by (simp add: Some next_content_def headed_iff)
  next
    case False
    then have "trimEnd c = header_line @ trimEnd (LF # rest)"
      unfolding c by (rule trimEnd_append)
    moreover from False have "\<not> list_all isWhiteSpace rest"
      by (simp add: isWhiteSpace_def)
    then have "trimEnd ([LF] @ rest) = [LF] @ trimEnd rest"
      by (rule trimEnd_append)
    ultimately show ?thesis
      by (simp add: Some next_content_def headed_iff)
  qed
qed

lemma headed_hasHeader: "headed c \<Longrightarrow> hasHeader c"
proof -
  assume "headed c"
  then obtain rest where c: "c = header_line @ LF # rest"
    by (auto simp: headed_iff)
  have "takeWhile (\<lambda>x. x \<noteq> LF) c = header_line"
    unfolding c using header_no_LF by (subst takeWhile_append2) auto
  then show ?thesis
    using header_marker by (simp add: hasHeader_def c)
qed

lemma headed_data_lines: "headed c \<Longrightarrow> \<exists>ls. data_lines c = header_line # ls"
proof -
  assume "headed c"
  then obtain rest where c: "c = header_line @ LF # rest"
    by (auto simp: headed_iff)
  have "data_lines header_line = [header_line]"
    using header_no_LF header_trimEnd header_trim header_not_blank
    by (simp add: data_lines_single)
  then show ?thesis
    unfolding c by (simp add: data_lines_append_LF)
qed

lemma trim_fixed_ends:
  assumes "trim s = s" "s \<noteq> []"
  shows "\<not> isWhiteSpace (hd s) \<and> \<not> isWhiteSpace (last s)"
proof
  show "\<not> isWhiteSpace (hd s)"
  proof
    assume "isWhiteSpace (hd s)"
    with assms(2) have "length (dropWhile isWhiteSpace s) < length s"
      by (cases s) (simp_all add: le_imp_less_Suc length_dropWhile_le)
    moreover have "length (trimEnd (dropWhile isWhiteSpace s)) \<le> length (dropWhile isWhiteSpace s)"
      by (simp add: trimEnd_def length_dropWhile_le [of isWhiteSpace "rev (dropWhile isWhiteSpace s)", simplified])
    ultimately have "length (trim s) < length s"
      by (simp add: trim_def)
    with assms(1) show False by simp
  qed
  have "trimEnd (dropWhile isWhiteSpace s) \<noteq> []"
    using assms by (simp add: trim_def)
  then have "\<not> isWhiteSpace (last (trimEnd (dropWhile isWhiteSpace s)))"
    by (rule trimEnd_last)
  then show "\<not> isWhiteSpace (last s)"
    using assms(1) by (simp add: trim_def)
qed

lemma trim_fixed_trimEnd: "trim s = s \<Longrightarrow> trimEnd s = s"
  by (metis trim_def trimEnd_idem)

lemma set_quoted: "set (quoted n) \<subseteq> insert DQUOTE (set n)"
  by (auto simp: quoted_eq doubled_eq split: if_splits)

lemma comma_not_ws: "\<not> isWhiteSpace COMMA"
  by (simp add: isWhiteSpace_def)

lemma row_of_shape:
  assumes "clean e"
  shows "LF \<notin> set (row_of e)" and "trim (row_of e) = row_of e" and "row_of e \<noteq> []"
proof -
  from assms have lf: "LF \<notin> set (entry_id e)" "LF \<notin> set (entry_file_id e)"
    "LF \<notin> set (entry_name e)" "LF \<notin> set (entry_type e)"
    and tr: "trim (entry_id e) = entry_id e" "trim (entry_type e) = entry_type e"
    by (simp_all add: clean_def tidy_def)
  from lf(3) have "LF \<notin> set (quoted (entry_name e))"
    using set_quoted [of "entry_name e"] by auto
  with lf show "LF \<notin> set (row_of e)"
    by (simp add: row_of_def row_text_eq)
  show ne: "row_of e \<noteq> []"
    by (simp add: row_of_def row_text_eq)
  have "\<not> isWhiteSpace (hd (row_of e))"
    using trim_fixed_ends [OF tr(1)] comma_not_ws
    by (cases "entry_id e") (simp_all add: row_of_def row_text_eq)
  moreover have "\<not> isWhiteSpace (last (row_of e))"
    using trim_fixed_ends [OF tr(2)] comma_not_ws
    by (cases "entry_type e" rule: rev_cases) (simp_all add: row_of_def row_text_eq)
  ultimately show "trim (row_of e) = row_of e"
    by (simp add: trim_fixed)
qed

lemma row_of_fields:
  assumes "clean e"
  shows "parseCSVLine (row_of e) = [entry_id e, entry_file_id e, entry_name e, entry_type e]"
  using assms parse_csv_row [of "entry_id e" "entry_file_id e" "entry_type e" "entry_name e"]
  by (simp add: clean_def tidy_def row_of_def)

lemma data_lines_row: "clean e \<Longrightarrow> data_lines (row_of e) = [row_of e]"
  using row_of_shape [of e] by (simp add: data_lines_single trim_fixed_trimEnd)

lemma data_lines_next:
  "data_lines (next_content content row) =
     (case content of None \<Rightarrow> [header_line] | Some c \<Rightarrow> data_lines c) @ data_lines row"
proof -
  have h: "data_lines header_line = [header_line]"
    using header_no_LF header_trimEnd header_trim header_not_blank
    by (simp add: data_lines_single)
  have r: "data_lines (row @ [LF]) = data_lines row"
    using data_lines_append_LF [of row "[]"] by (simp add: data_lines_Nil)
  show ?thesis
  proof (cases content)
    case None
    then show ?thesis
      using data_lines_append_LF [of header_line "row @ [LF]"] h r
      by (simp add: next_content_def)
  next
    case (Some c)
    then show ?thesis
      using data_lines_append_LF [of "trimEnd c" "row @ [LF]"] r
      by (simp add: next_content_def data_lines_trimEnd)
  qed
qed

lemma headed_not_Nil: "headed c \<Longrightarrow> c \<noteq> []"
  by (auto simp: headed_iff)

lemma getFileContent_content: "getFileContent (service f) w = (content_of w, w)"
  by (simp add: getFileContent_service content_of_def)

lemma appendToCSV_well_headed:
  assumes "well_headed w" and "latin1 i \<and> latin1 r \<and> latin1 n \<and> latin1 t"
  shows "fst (appendToCSV (service f) i r n t w) = Inr ()"
    and "well_headed (snd (appendToCSV (service f) i r n t w))"
    and "content_of (snd (appendToCSV (service f) i r n t w)) =
           Some (next_content (content_of w) (narrow (csv_row i r n t)))"
    and "stored_rows (snd (appendToCSV (service f) i r n t w)) =
           stored_rows w @ data_lines (narrow (csv_row i r n t))"
proof -
  have ne: "content_of w \<noteq> Some []"
    using assms(1) headed_not_Nil [of "[]"] by (auto simp: well_headed_def)
  then show "fst (appendToCSV (service f) i r n t w) = Inr ()"
    using assms(2) by (simp add: appendToCSV_service)
  show c: "content_of (snd (appendToCSV (service f) i r n t w)) =
      Some (next_content (content_of w) (narrow (csv_row i r n t)))"
    using ne assms(2) by (simp add: appendToCSV_service content_of_def)
  have "headed (next_content (content_of w) (narrow (csv_row i r n t)))"
    using assms(1) by (intro headed_next) (auto simp: well_headed_def split: option.splits)
  then show "well_headed (snd (appendToCSV (service f) i r n t w))"
    by (simp add: well_headed_def c)
  show "stored_rows (snd (appendToCSV (service f) i r n t w)) =
      stored_rows w @ data_lines (narrow (csv_row i r n t))"
  proof (cases "content_of w")
    case None
    then show ?thesis
      by (simp add: stored_rows_def c data_lines_next)
  next
    case (Some old)
    with assms(1) obtain ls where "data_lines old = header_line # ls"
      using headed_data_lines [of old] by (auto simp: well_headed_def)
    with Some show ?thesis
      by (simp add: stored_rows_def c data_lines_next)
  qed
qed

lemma appendToCSV_wide:
  assumes "content_of w \<noteq> Some []" and "\<not> (latin1 i \<and> latin1 r \<and> latin1 n \<and> latin1 t)"
  shows "appendToCSV (service f) i r n t w = (Inl InvalidCharacterError, w)"
  using assms by (simp add: appendToCSV_service)

lemma append_entry:
  assumes "well_headed w"
  shows "fst (appendToCSV (service f) (units (entry_id e)) (units (entry_file_id e))
               (units (entry_name e)) (units (entry_type e)) w) = Inr ()"
    and "well_headed (snd (appendToCSV (service f) (units (entry_id e)) (units (entry_file_id e))
               (units (entry_name e)) (units (entry_type e)) w))"
    and "content_of (snd (appendToCSV (service f) (units (entry_id e)) (units (entry_file_id e))
               (units (entry_name e)) (units (entry_type e)) w)) =
           Some (next_content (content_of w) (row_of e))"
    and "stored_rows (snd (appendToCSV (service f) (units (entry_id e)) (units (entry_file_id e))
               (units (entry_name e)) (units (entry_type e)) w)) =
           stored_rows w @ data_lines (row_of e)"
  using appendToCSV_well_headed [OF assms, of "units (entry_id e)" "units (entry_file_id e)"
      "units (entry_name e)" "units (entry_type e)" f]
  by (simp_all add: row_of_def row_text_def)

lemma appends_well_headed:
  assumes "well_headed w"
  shows "fst (appends (service f) es w) = map (\<lambda>e. Inr ()) es \<and>
         well_headed (snd (appends (service f) es w)) \<and>
         stored_rows (snd (appends (service f) es w)) =
           stored_rows w @ concat (map (\<lambda>e. data_lines (row_of e)) es) \<and>
         (es \<noteq> [] \<longrightarrow> content_of (snd (appends (service f) es w)) \<noteq> None)"
  using assms
proof (induction es arbitrary: w)
  case Nil
  then show ?case by simp
next
  case (Cons e es)
  let ?w = "snd (appendToCSV (service f) (units (entry_id e)) (units (entry_file_id e))
               (units (entry_name e)) (units (entry_type e)) w)"
  note step = append_entry [OF Cons.prems, of f e]
  have later: "content_of (snd (appends (service f) es ?w)) \<noteq> None"
  proof (cases es)
    case Nil
    then show ?thesis using step(3) by simp
  next
    case (Cons a list)
    then show ?thesis using Cons.IH [OF step(2)] by simp
  qed
  show ?case
    using Cons.IH [OF step(2)] step(1) step(4) later
    by (simp add: case_prod_beta)
qed

lemma find_well_headed:
  assumes "well_headed w"
  shows "fst (findFileByIdStreaming (service f) i w) = find_loop True (stored_rows w) i"
proof (cases "content_of w")
  case None
  then show ?thesis
    by (simp add: findFileByIdStreaming_def getFileContent_content find_in_content_def
          stored_rows_def)
next
  case (Some c)
  with assms obtain ls where ls: "data_lines c = header_line # ls"
    using headed_data_lines [of c] by (auto simp: well_headed_def)
  have "find_in_content (Some c) i = find_loop True ls i"
    unfolding find_in_content_data_lines ls
    using header_marker header_not_blank by (simp add: header_trim)
  with Some ls show ?thesis
    by (simp add: findFileByIdStreaming_def getFileContent_content stored_rows_def)
qed

lemma dup_well_headed:
  assumes "well_headed w" "content_of w \<noteq> None"
  shows "fst (checkForDuplicate (service f) n r w) = dup_loop (header_line # stored_rows w) n r"
proof -
  from assms obtain c where c: "content_of w = Some c" by auto
  with assms obtain ls where ls: "data_lines c = header_line # ls"
    using headed_data_lines [of c] by (auto simp: well_headed_def)
  show ?thesis
    using c ls
    by (simp add: checkForDuplicate_def getFileContent_content stored_rows_def
          dup_in_content_data_lines del: dup_loop.simps)
qed

lemma count_well_headed:
  assumes "well_headed w"
  shows "fst (getFileCount (service f) w) = int (length (stored_rows w))"
proof (cases "content_of w")
  case None
  then show ?thesis
    by (simp add: getFileCount_def getFileContent_content count_content_def stored_rows_def)
next
  case (Some c)
  with assms have h: "headed c" by (simp add: well_headed_def)
  then obtain ls where ls: "data_lines c = header_line # ls"
    using headed_data_lines [of c] by auto
  show ?thesis
    using Some ls headed_hasHeader [OF h] headed_not_Nil [OF h]
    by (simp add: getFileCount_def getFileContent_content stored_rows_def
          count_content_data_lines)
qed

lemma find_loop_append:
  "find_loop True (xs @ ys) i =
     (case find_loop True xs i of Some d \<Rightarrow> Some d | None \<Rightarrow> find_loop True ys i)"
  by (induction xs) simp_all

lemma dup_loop_append:
  "dup_loop (xs @ ys) n f =
     (case dup_loop xs n f of Some d \<Rightarrow> Some d | None \<Rightarrow> dup_loop ys n f)"
  by (induction xs) auto

lemma find_loop_row:
  assumes "clean e"
  shows "find_loop True (row_of e # ls) i =
           (if units (entry_id e) = i then Some (data_of e) else find_loop True ls i)"
  using row_of_shape [OF assms] row_of_fields [OF assms]
  by (simp add: data_of_def)

lemma dup_loop_row:
  assumes "clean e"
  shows "dup_loop (row_of e # ls) n f =
           (if units (entry_name e) = n \<or> units (entry_file_id e) = f then Some (duplicate_of e)
            else dup_loop ls n f)"
  using row_of_shape [OF assms] row_of_fields [OF assms]
  by (simp add: duplicate_of_def)

lemma find_loop_rows:
  "\<forall>e \<in> set es. clean e \<Longrightarrow>
   find_loop True (map row_of es) i = map_option data_of (find (\<lambda>e. units (entry_id e) = i) es)"
proof (induction es)
  case Nil
  show ?case by simp
next
  case (Cons e es)
  then show ?case
    using find_loop_row [of e "map row_of es" i] by (simp del: find_loop.simps)
qed

lemma dup_loop_rows:
  "\<forall>e \<in> set es. clean e \<Longrightarrow>
   dup_loop (map row_of es) n f =
     map_option duplicate_of
       (find (\<lambda>e. units (entry_name e) = n \<or> units (entry_file_id e) = f) es)"
proof (induction es)
  case Nil
  show ?case by simp
next
  case (Cons e es)
  then show ?case
    using dup_loop_row [of e "map row_of es" n f] by (simp del: dup_loop.simps)
qed

lemma dup_loop_header:
  "dup_loop (header_line # ls) n f =
     (if n = units ''file_name'' \<or> f = units ''file_id''
      then Some \<lparr>numericalId = ''numerical_file_id'',
                 fileData = \<lparr>file_id = ''file_id'', file_name = ''file_name'',
                             file_type = ''file_type''\<rparr>\<rparr>
      else dup_loop ls n f)"
  using header_not_blank by (auto simp: header_fields header_trim)

lemma concat_clean_rows:
  "\<forall>e \<in> set es. clean e \<Longrightarrow> concat (map (\<lambda>e. data_lines (row_of e)) es) = map row_of es"
  by (induction es) (simp_all add: data_lines_row)

section \<open>Append, then look up\<close>

declare find_loop.simps(2) [simp del] dup_loop.simps(2) [simp del]

lemma well_headed_empty: "well_headed empty_world"
  by (simp add: well_headed_def content_of_def empty_world_def)

lemma stored_rows_empty: "stored_rows empty_world = []"
  by (simp add: stored_rows_def content_of_def empty_world_def)

text \<open>
  C5, as amended. Take a store that is absent or begins with the header line, and an
  identifier, a file reference, a name and a type whose code units are all below 256, free
  of line feeds and of surrounding whitespace, the identifier, the file reference and the
  type without comma and quote, the name and the type not empty; the name may hold commas
  and quotes. If the identifier is not found before, the append succeeds, a lookup of the
  identifier afterwards returns the file reference, the name and the type that were
  appended, and the lookup of every other identifier returns what it returned before
  (absent, on a store that was absent).
\<close>

theorem append_then_find_round_trip:
  assumes "well_headed w"
    and "latin1 i \<and> latin1 r \<and> latin1 n \<and> latin1 t"
    and "clean \<lparr>entry_id = narrow i, entry_file_id = narrow r, entry_name = narrow n,
                 entry_type = narrow t\<rparr>"
    and "n \<noteq> []" and "t \<noteq> []"
    and "fst (findFileByIdStreaming (service f) i w) = None"
  shows "fst (appendToCSV (service f) i r n t w) = Inr () \<and>
         map_option (\<lambda>d. (units (file_id d), units (file_name d), units (file_type d)))
           (fst (findFileByIdStreaming (service f) i (snd (appendToCSV (service f) i r n t w)))) =
           Some (r, n, t) \<and>
         (\<forall>j. j \<noteq> i \<longrightarrow>
            fst (findFileByIdStreaming (service f) j (snd (appendToCSV (service f) i r n t w))) =
            fst (findFileByIdStreaming (service f) j w))"
proof -
  let ?e = "\<lparr>entry_id = narrow i, entry_file_id = narrow r, entry_name = narrow n,
             entry_type = narrow t\<rparr>"
  let ?w = "snd (appendToCSV (service f) i r n t w)"
  have u: "units (narrow i) = i" "units (narrow r) = r" "units (narrow n) = n"
    "units (narrow t) = t"
    using assms(2) by (simp_all add: units_narrow)
  have step: "fst (appendToCSV (service f) i r n t w) = Inr ()" "well_headed ?w"
    "stored_rows ?w = stored_rows w @ data_lines (row_of ?e)"
    using append_entry(1,2,4) [OF assms(1), of f ?e] by (simp_all add: u)
  have rows: "stored_rows ?w = stored_rows w @ [row_of ?e]"
    using step(3) data_lines_row [OF assms(3)] by simp
  have found: "\<And>j. fst (findFileByIdStreaming (service f) j ?w) =
      (case find_loop True (stored_rows w) j of
         Some d \<Rightarrow> Some d
       | None \<Rightarrow> if i = j then Some (data_of ?e) else None)"
  proof -
    fix j
    have one: "find_loop True [row_of ?e] j = (if i = j then Some (data_of ?e) else None)"
      unfolding find_loop_row [OF assms(3)] by (simp add: u)
    show "fst (findFileByIdStreaming (service f) j ?w) =
      (case find_loop True (stored_rows w) j of
         Some d \<Rightarrow> Some d
       | None \<Rightarrow> if i = j then Some (data_of ?e) else None)"
      unfolding find_well_headed [OF step(2)] rows find_loop_append one ..
  qed
  have before: "\<And>j. fst (findFileByIdStreaming (service f) j w) = find_loop True (stored_rows w) j"
    using assms(1) by (rule find_well_headed)
  have "narrow n \<noteq> []" "narrow t \<noteq> []"
    using assms(4,5) by (simp_all add: narrow_def)
  then have d: "data_of ?e = \<lparr>file_id = narrow r, file_name = narrow n, file_type = narrow t\<rparr>"
    by (simp add: data_of_def or_else_def)
  have "find_loop True (stored_rows w) i = None"
    using assms(6) before by simp
  then have "fst (findFileByIdStreaming (service f) i ?w) =
      Some \<lparr>file_id = narrow r, file_name = narrow n, file_type = narrow t\<rparr>"
    using found [of i] d by simp
  then have here: "map_option (\<lambda>d. (units (file_id d), units (file_name d), units (file_type d)))
      (fst (findFileByIdStreaming (service f) i ?w)) = Some (r, n, t)"
    by (simp add: u)
  have other: "\<forall>j. j \<noteq> i \<longrightarrow>
      fst (findFileByIdStreaming (service f) j ?w) = fst (findFileByIdStreaming (service f) j w)"
    using found before by (auto split: option.splits)
  show ?thesis
    using step(1) here other by blast
qed

lemma find_empty: "fst (findFileByIdStreaming (service f) i empty_world) = None"
  by (simp add: find_well_headed [OF well_headed_empty] stored_rows_empty)

theorem append_then_find_round_trip_witness:
  "well_headed empty_world \<and>
   latin1 (units ''1234567890123456'') \<and> latin1 (units ''BQACAgUAAxkBAAIBZ2'') \<and>
   latin1 (units ''O'Brien, \"big\" file.pdf'') \<and> latin1 (units ''Document'') \<and>
   clean \<lparr>entry_id = ''1234567890123456'', entry_file_id = ''BQACAgUAAxkBAAIBZ2'',
          entry_name = ''O'Brien, \"big\" file.pdf'', entry_type = ''Document''\<rparr> \<and>
   fst (findFileByIdStreaming (service reliable) (units ''1234567890123456'') empty_world) = None \<and>
   fst (findFileByIdStreaming (service reliable) (units ''1234567890123456'')
         (snd (appendToCSV (service reliable) (units ''1234567890123456'')
                (units ''BQACAgUAAxkBAAIBZ2'') (units ''O'Brien, \"big\" file.pdf'')
                (units ''Document'') empty_world))) =
     Some \<lparr>file_id = ''BQACAgUAAxkBAAIBZ2'', file_name = ''O'Brien, \"big\" file.pdf'',
           file_type = ''Document''\<rparr> \<and>
   fst (findFileByIdStreaming (service reliable) (units ''6543210987654321'')
         (snd (appendToCSV (service reliable) (units ''1234567890123456'')
                (units ''BQACAgUAAxkBAAIBZ2'') (units ''O'Brien, \"big\" file.pdf'')
                (units ''Document'') empty_world))) = None"
proof -
  let ?e = "\<lparr>entry_id = ''1234567890123456'', entry_file_id = ''BQACAgUAAxkBAAIBZ2'',
          entry_name = ''O'Brien, \"big\" file.pdf'', entry_type = ''Document''\<rparr>"
  let ?w = "snd (appendToCSV (service reliable) (units ''1234567890123456'')
                (units ''BQACAgUAAxkBAAIBZ2'') (units ''O'Brien, \"big\" file.pdf'')
                (units ''Document'') empty_world)"
  have t: "trim ''1234567890123456'' = ''1234567890123456''"
    "trim ''BQACAgUAAxkBAAIBZ2'' = ''BQACAgUAAxkBAAIBZ2''"
    "trim ''O'Brien, \"big\" file.pdf'' = ''O'Brien, \"big\" file.pdf''"
    "trim ''Document'' = ''Document''"
    by (rule trim_fixed, simp add: isWhiteSpace_def)+
  have c: "clean ?e"
    by (simp add: clean_def plain_def tidy_def t)
  have l: "latin1 (units ''1234567890123456'') \<and> latin1 (units ''BQACAgUAAxkBAAIBZ2'') \<and>
      latin1 (units ''O'Brien, \"big\" file.pdf'') \<and> latin1 (units ''Document'')"
    by (simp only: latin1_units simp_thms)
  have c': "clean \<lparr>entry_id = narrow (units ''1234567890123456''),
      entry_file_id = narrow (units ''BQACAgUAAxkBAAIBZ2''),
      entry_name = narrow (units ''O'Brien, \"big\" file.pdf''),
      entry_type = narrow (units ''Document'')\<rparr>"
    using c by (simp only: narrow_units)
  have ne: "units ''O'Brien, \"big\" file.pdf'' \<noteq> []" "units ''Document'' \<noteq> []"
    by (simp_all only: units_eq_Nil) simp_all
  have other: "units ''6543210987654321'' \<noteq> units ''1234567890123456''"
    by (simp only: units_eq_units) simp
  note run = append_then_find_round_trip [OF well_headed_empty l c' ne find_empty, of reliable]
  note m = run [THEN conjunct2, THEN conjunct1]
  note o = run [THEN conjunct2, THEN conjunct2, rule_format, OF other]
  obtain d where d: "fst (findFileByIdStreaming (service reliable)
      (units ''1234567890123456'') ?w) = Some d"
    and "(units (file_id d), units (file_name d), units (file_type d)) =
      (units ''BQACAgUAAxkBAAIBZ2'', units ''O'Brien, \"big\" file.pdf'', units ''Document'')"
    using m unfolding map_option_eq_Some by blast
  then have "file_id d = ''BQACAgUAAxkBAAIBZ2''" "file_name d = ''O'Brien, \"big\" file.pdf''"
    "file_type d = ''Document''"
    unfolding prod.inject units_eq_units by blast+
  then have "d = \<lparr>file_id = ''BQACAgUAAxkBAAIBZ2'', file_name = ''O'Brien, \"big\" file.pdf'',
      file_type = ''Document''\<rparr>"
    by (cases d) (simp only: file_data.simps simp_thms)
  then have here: "fst (findFileByIdStreaming (service reliable) (units ''1234567890123456'') ?w) =
      Some \<lparr>file_id = ''BQACAgUAAxkBAAIBZ2'', file_name = ''O'Brien, \"big\" file.pdf'',
           file_type = ''Document''\<rparr>"
    using d by (simp only:)
  have there: "fst (findFileByIdStreaming (service reliable) (units ''6543210987654321'') ?w) = None"
    unfolding o by (rule find_empty)
  from well_headed_empty l c find_empty [of reliable "units ''1234567890123456''"] here there
  show ?thesis
    by (intro conjI) (simp_all only: simp_thms)
qed

text \<open>
  The claim as stated fails for a name with surrounding whitespace: the parser trims every
  field, so the name that comes back is not the name that was appended.
\<close>

theorem append_then_find_counterexample:
  "fst (findFileByIdStreaming (service reliable) (units ''1234567890123456'')
         (snd (appendToCSV (service reliable) (units ''1234567890123456'')
                (units ''BQACAgUAAxkBAAIBZ2'') (units '' a.pdf'') (units ''Document'')
                empty_world))) =
     Some \<lparr>file_id = ''BQACAgUAAxkBAAIBZ2'', file_name = ''a.pdf'', file_type = ''Document''\<rparr> \<and>
   units ''a.pdf'' \<noteq> units '' a.pdf''"
proof -
  let ?e = "\<lparr>entry_id = ''1234567890123456'', entry_file_id = ''BQACAgUAAxkBAAIBZ2'',
             entry_name = '' a.pdf'', entry_type = ''Document''\<rparr>"
  let ?r = "row_text ''1234567890123456'' ''BQACAgUAAxkBAAIBZ2'' '' a.pdf'' ''Document''"
  let ?w = "snd (appendToCSV (service reliable) (units ''1234567890123456'')
                (units ''BQACAgUAAxkBAAIBZ2'') (units '' a.pdf'') (units ''Document'')
                empty_world)"
  have step: "well_headed ?w" "stored_rows ?w = stored_rows empty_world @ data_lines ?r"
    using append_entry(2,4) [OF well_headed_empty, of reliable ?e] by (simp_all add: row_of_def)
  have r: "?r = ''1234567890123456,BQACAgUAAxkBAAIBZ2, a.pdf,Document''"
    by (simp add: row_text_eq quoted_eq)
  have tr: "trim ?r = ?r"
    unfolding r by (rule trim_fixed) (simp add: isWhiteSpace_def)
  have "LF \<notin> set ?r" and "?r \<noteq> []"
    by (simp_all add: r)
  then have "data_lines ?r = [?r]"
    using tr by (simp add: data_lines_single trim_fixed_trimEnd)
  then have rows: "stored_rows ?w = [?r]"
    using step(2) by (simp add: stored_rows_empty)
  have "trim ''1234567890123456'' = ''1234567890123456''"
    "trim ''BQACAgUAAxkBAAIBZ2'' = ''BQACAgUAAxkBAAIBZ2''"
    "trim ''Document'' = ''Document''"
    by (rule trim_fixed, simp add: isWhiteSpace_def)+
  moreover have "trim '' a.pdf'' = ''a.pdf''"
    by (simp add: trim_def trimEnd_def isWhiteSpace_def)
  ultimately have p: "parseCSVLine ?r = [''1234567890123456'', ''BQACAgUAAxkBAAIBZ2'', ''a.pdf'', ''Document'']"
    using parse_csv_row [of "''1234567890123456''" "''BQACAgUAAxkBAAIBZ2''" "''Document''" "'' a.pdf''"]
    by (simp add: plain_def)
  have "find_loop True [?r] (units ''1234567890123456'') =
      Some \<lparr>file_id = ''BQACAgUAAxkBAAIBZ2'', file_name = ''a.pdf'', file_type = ''Document''\<rparr>"
    unfolding find_loop.simps tr p by (simp add: or_else_def r)
  then show ?thesis
    unfolding find_well_headed [OF step(1)] rows by simp
qed

text \<open>
  A name with a code unit above 255, here the Cyrillic letters of U+0444 U+0430 U+0439
  U+043B before \<open>.pdf\<close>: \<^verbatim>\<open>btoa\<close> throws, the append rejects, and the store stays as
  it was.
\<close>

theorem append_of_wide_name_throws:
  "appendToCSV (service reliable) (units ''1234567890123456'') (units ''BQACAgUAAxkBAAIBZ2'')
     ([1092, 1072, 1081, 1083] @ units ''.pdf'') (units ''Document'') empty_world =
     (Inl InvalidCharacterError, empty_world)"
proof -
  have "content_of empty_world \<noteq> Some []"
    by (simp add: content_of_def empty_world_def)
  moreover have "\<not> latin1 ([1092, 1072, 1081, 1083] @ units ''.pdf'')"
    by (simp add: latin1_def)
  ultimately show ?thesis
    by (simp add: appendToCSV_wide)
qed

section \<open>Counting after appends\<close>

lemma nonblank_row: "trim (row_text i r n t) \<noteq> []"
proof -
  have "COMMA \<in> set (row_text i r n t)"
    by (simp add: row_text_eq)
  then have "\<not> list_all isWhiteSpace (row_text i r n t)"
    using comma_not_ws by (auto simp: list_all_iff)
  then show ?thesis
    by (simp add: trim_blank_iff)
qed

lemma data_lines_one_line:
  assumes "LF \<notin> set (row_of e)"
  shows "length (data_lines (row_of e)) = 1"
  using assms nonblank_row [of "entry_id e" "entry_file_id e" "entry_name e" "entry_type e"]
  by (simp add: data_lines_def split_lines_no_LF trim_trimEnd row_of_def)

lemma length_concat_one_line:
  "\<forall>e \<in> set es. LF \<notin> set (row_of e) \<Longrightarrow>
   length (concat (map (\<lambda>e. data_lines (row_of e)) es)) = length es"
  by (induction es) (simp_all add: data_lines_one_line)

text \<open>
  After \<open>N\<close> appends of entries without a line feed to a store that was absent, every
  append has succeeded and \<^verbatim>\<open>getFileCount\<close> returns \<open>N\<close>.
\<close>

theorem count_after_appends:
  assumes "\<forall>e \<in> set es. LF \<notin> set (row_of e)"
  shows "fst (appends (service f) es empty_world) = map (\<lambda>e. Inr ()) es \<and>
         fst (getFileCount (service f) (snd (appends (service f) es empty_world))) = int (length es)"
  using appends_well_headed [OF well_headed_empty, of f es] length_concat_one_line [OF assms]
  by (simp add: count_well_headed stored_rows_empty)

text \<open>
  C6. One append of a name that holds a line feed, to a store that was absent: the append
  succeeds and \<^verbatim>\<open>getFileCount\<close> returns 2, not 1. \<^verbatim>\<open>escapeCSV\<close> wraps the name in
  quotes, but \<^verbatim>\<open>getFileCount\<close> counts lines, and the row takes two.
\<close>

theorem count_after_append_of_two_line_name:
  "fst (appendToCSV (service reliable) (units ''1234567890123456'') (units ''BQACAgUAAxkBAAIBZ2'')
         (units [CHR ''x'', LF, CHR ''y'']) (units ''Document'') empty_world) = Inr () \<and>
   content_of (snd (appendToCSV (service reliable) (units ''1234567890123456'')
         (units ''BQACAgUAAxkBAAIBZ2'') (units [CHR ''x'', LF, CHR ''y'']) (units ''Document'')
         empty_world)) =
     Some (''numerical_file_id,file_id,file_name,file_type'' @ [LF] @
           ''1234567890123456,BQACAgUAAxkBAAIBZ2,\"x'' @ [LF] @ ''y\",Document'' @ [LF]) \<and>
   fst (getFileCount (service reliable)
         (snd (appendToCSV (service reliable) (units ''1234567890123456'')
                (units ''BQACAgUAAxkBAAIBZ2'') (units [CHR ''x'', LF, CHR ''y''])
                (units ''Document'') empty_world))) = 2"
proof -
  let ?a = "''1234567890123456,BQACAgUAAxkBAAIBZ2,\"x''"
  let ?b = "''y\",Document''"
  let ?e = "\<lparr>entry_id = ''1234567890123456'', entry_file_id = ''BQACAgUAAxkBAAIBZ2'',
             entry_name = [CHR ''x'', LF, CHR ''y''], entry_type = ''Document''\<rparr>"
  let ?w = "snd (appendToCSV (service reliable) (units ''1234567890123456'')
                (units ''BQACAgUAAxkBAAIBZ2'') (units [CHR ''x'', LF, CHR ''y''])
                (units ''Document'') empty_world)"
  have step: "fst (appendToCSV (service reliable) (units ''1234567890123456'')
                (units ''BQACAgUAAxkBAAIBZ2'') (units [CHR ''x'', LF, CHR ''y''])
                (units ''Document'') empty_world) = Inr ()"
    "well_headed ?w"
    "content_of ?w = Some (next_content (content_of empty_world) (row_of ?e))"
    "stored_rows ?w = stored_rows empty_world @ data_lines (row_of ?e)"
    using append_entry [OF well_headed_empty, of reliable ?e] by simp_all
  have r: "row_of ?e = ?a @ LF # ?b"
    by (simp add: row_of_def row_text_eq quoted_eq doubled_eq)
  have "trim ?a = ?a" "trim ?b = ?b"
    by (rule trim_fixed, simp add: isWhiteSpace_def)+
  then have "data_lines ?a = [?a]" "data_lines ?b = [?b]"
    by (simp_all add: data_lines_single trim_fixed_trimEnd)
  then have "data_lines (?a @ LF # ?b) = [?a, ?b]"
    by (simp only: data_lines_append_LF) simp
  then have "stored_rows ?w = [?a, ?b]"
    using step(4) by (simp only: r stored_rows_empty) simp
  then have "fst (getFileCount (service reliable) ?w) = 2"
    by (simp only: count_well_headed [OF step(2)]) simp
  moreover have "content_of empty_world = None"
    by (simp add: content_of_def empty_world_def)
  ultimately show ?thesis
    using step(1) step(3) by (simp add: r next_content_def header_line_def)
qed

section \<open>The duplicate check\<close>

text \<open>
  After appends of clean entries to a store that was absent, the duplicate check scans the
  header line first, as if it were a record with the name \<open>file_name\<close> and the file
  reference \<open>file_id\<close>, and then the entries in the order of their appends: it returns the
  first entry whose name or whose file reference is the probed one.
\<close>

theorem checkForDuplicate_after_appends:
  assumes "\<forall>e \<in> set es. clean e"
  shows "fst (checkForDuplicate (service f) n r (snd (appends (service f) es empty_world))) =
           (if es = [] then None
            else if n = units ''file_name'' \<or> r = units ''file_id''
            then Some \<lparr>numericalId = ''numerical_file_id'',
                       fileData = \<lparr>file_id = ''file_id'', file_name = ''file_name'',
                                   file_type = ''file_type''\<rparr>\<rparr>
            else map_option duplicate_of
                   (find (\<lambda>e. units (entry_name e) = n \<or> units (entry_file_id e) = r) es))"
proof (cases "es = []")
  case True
  then show ?thesis
    by (simp add: checkForDuplicate_def getFileContent_content dup_in_content_def
          content_of_def empty_world_def)
next
  case False
  let ?w = "snd (appends (service f) es empty_world)"
  note run = appends_well_headed [OF well_headed_empty, of f es]
  have rows: "stored_rows ?w = map row_of es"
    using run concat_clean_rows [OF assms] by (simp add: stored_rows_empty)
  have "fst (checkForDuplicate (service f) n r ?w) = dup_loop (header_line # map row_of es) n r"
    using run False dup_well_headed [of ?w f n r] by (simp add: rows)
  then show ?thesis
    using False by (simp add: dup_loop_header dup_loop_rows [OF assms])
qed

text \<open>
  C2. One clean entry is appended to a store that was absent. A probe with the name
  \<open>file_name\<close> and a file reference never seen is reported as a duplicate, although no
  appended record has that name or that reference: the hit is the header line.
\<close>

theorem checkForDuplicate_hits_header_line:
  "clean \<lparr>entry_id = ''1234567890123456'', entry_file_id = ''BQACAgUAAxkBAAIBZ2'',
          entry_name = ''report.pdf'', entry_type = ''Document''\<rparr> \<and>
   fst (checkForDuplicate (service reliable) (units ''file_name'') (units ''BQACAgUAAxkBAAIBZ3'')
         (snd (appends (service reliable)
                [\<lparr>entry_id = ''1234567890123456'', entry_file_id = ''BQACAgUAAxkBAAIBZ2'',
                   entry_name = ''report.pdf'', entry_type = ''Document''\<rparr>] empty_world))) =
     Some \<lparr>numericalId = ''numerical_file_id'',
           fileData = \<lparr>file_id = ''file_id'', file_name = ''file_name'',
                       file_type = ''file_type''\<rparr>\<rparr>"
proof -
  let ?e = "\<lparr>entry_id = ''1234567890123456'', entry_file_id = ''BQACAgUAAxkBAAIBZ2'',
          entry_name = ''report.pdf'', entry_type = ''Document''\<rparr>"
  have t: "trim ''1234567890123456'' = ''1234567890123456''"
    "trim ''BQACAgUAAxkBAAIBZ2'' = ''BQACAgUAAxkBAAIBZ2''"
    "trim ''report.pdf'' = ''report.pdf''"
    "trim ''Document'' = ''Document''"
    by (rule trim_fixed, simp add: isWhiteSpace_def)+
  have c: "clean ?e"
    by (simp add: clean_def plain_def tidy_def t)
  then have "\<forall>e \<in> set [?e]. clean e"
    by simp
  then show ?thesis
    using c checkForDuplicate_after_appends [of "[?e]" reliable "units ''file_name''"
        "units ''BQACAgUAAxkBAAIBZ3''"]
    by simp
qed

section \<open>Uploads\<close>

lemma service_sendMessage:
  "post_sendMessage (service f) c text w = (send_reply_of f c text, w\<lparr>tg_sends := tg_sends w @ [(c, text)]\<rparr>)"
  by (simp add: service_def)

lemma content_of_updates:
  "content_of (w\<lparr>tg_sends := a\<rparr>) = content_of w"
  "content_of (w\<lparr>tg_deletes := b\<rparr>) = content_of w"
  "content_of (w\<lparr>console := c\<rparr>) = content_of w"
  by (simp_all add: content_of_def)

lemma sendMessage_content:
  "content_of (snd (sendMessage (service f) c text w)) = content_of w"
  by (simp add: sendMessage_def service_sendMessage content_of_updates split: send_reply.splits)

lemma sendMessage_outcome:
  "fst (sendMessage (service f) c text w) =
     (case send_reply_of f c text of SendThrew \<Rightarrow> Inl FetchFailed | SendReply ok mid \<Rightarrow> Inr (ok, mid))"
  by (simp add: sendMessage_def service_sendMessage split: send_reply.splits)

lemma deleteMessage_content:
  "content_of (snd (deleteMessage (service f) c mid w)) = content_of w"
  by (simp add: deleteMessage_service content_of_updates)

lemma getFileCount_world: "snd (getFileCount (service f) w) = w"
  by (simp add: getFileCount_def getFileContent_content)

lemma checkForDuplicate_service:
  "checkForDuplicate (service f) n r w = (dup_in_content (content_of w) n r, w)"
  by (simp add: checkForDuplicate_def getFileContent_content)

lemma appendToCSV_content:
  "content_of (snd (appendToCSV (service f) i r n t w)) =
     (if content_of w \<noteq> Some [] \<and> latin1 i \<and> latin1 r \<and> latin1 n \<and> latin1 t
      then Some (next_content (content_of w) (narrow (csv_row i r n t)))
      else content_of w)"
  by (simp add: appendToCSV_service content_of_def)

lemma upload_body_content:
  "content_of (snd (upload_body (service f) rnd c fid name kind w)) =
     (if send_reply_of f c Checking \<noteq> SendThrew \<and> dup_in_content (content_of w) name fid = None \<and>
         send_reply_of f c Adding \<noteq> SendThrew \<and> content_of w \<noteq> Some [] \<and>
         latin1 fid \<and> latin1 name \<and> latin1 kind
      then Some (next_content (content_of w)
                   (narrow (csv_row (units (generateNumericalFileId rnd)) fid name kind)))
      else content_of w)"
proof (cases "sendMessage (service f) c Checking w")
  case (Pair o1 w1)
  have w1: "content_of w1 = content_of w" and o1: "o1 = (case send_reply_of f c Checking of SendThrew \<Rightarrow> Inl FetchFailed | SendReply ok mid \<Rightarrow> Inr (ok, mid))"
    using sendMessage_content [of f c Checking w] sendMessage_outcome [of f c Checking w] Pair
    by simp_all
  show ?thesis
  proof (cases "send_reply_of f c Checking")
    case SendThrew
    then show ?thesis
      using Pair o1 w1 by (simp add: upload_body_def)
  next
    case (SendReply ok mid)
    define w3 where "w3 = (if ok then snd (deleteMessage (service f) c mid w1) else w1)"
    have w3: "content_of w3 = content_of w"
      by (simp add: w3_def deleteMessage_content w1)
    show ?thesis
    proof (cases "dup_in_content (content_of w) name fid")
      case (Some found)
      then show ?thesis
        using Pair o1 w1 SendReply
          sendMessage_content [of f c "AlreadyExists (file_name (fileData found)) (numericalId found)" w3]
        by (auto simp: upload_body_def checkForDuplicate_service w3_def [symmetric] w3
              split: prod.splits sum.splits)
    next
      case None
      obtain o4 w4 where s4: "sendMessage (service f) c Adding w3 = (o4, w4)"
        by (cases "sendMessage (service f) c Adding w3")
      have w4: "content_of w4 = content_of w" and o4: "o4 = (case send_reply_of f c Adding of SendThrew \<Rightarrow> Inl FetchFailed | SendReply ok mid \<Rightarrow> Inr (ok, mid))"
        using sendMessage_content [of f c Adding w3] sendMessage_outcome [of f c Adding w3] s4 w3
        by simp_all
      show ?thesis
      proof (cases "send_reply_of f c Adding")
        case SendThrew
        then show ?thesis
          using Pair o1 w1 SendReply None s4 o4 w4
          by (simp add: upload_body_def checkForDuplicate_service w3_def [symmetric] w3)
      next
        case (SendReply ok' mid')
        note second = this
        let ?a = "appendToCSV (service f) (units (generateNumericalFileId rnd)) fid name kind w4"
        let ?good = "content_of w \<noteq> Some [] \<and> latin1 fid \<and> latin1 name \<and> latin1 kind"
        have a: "content_of (snd ?a) =
            (if ?good
             then Some (next_content (content_of w)
                          (narrow (csv_row (units (generateNumericalFileId rnd)) fid name kind)))
             else content_of w)"
          by (simp add: appendToCSV_content w4)
        have failed: "content_of w = Some [] \<Longrightarrow> fst ?a = Inl ReadFailed"
          by (simp add: appendToCSV_service w4)
        have wide: "content_of w \<noteq> Some [] \<Longrightarrow> \<not> (latin1 fid \<and> latin1 name \<and> latin1 kind) \<Longrightarrow>
            fst ?a = Inl InvalidCharacterError"
          by (simp add: appendToCSV_service w4)
        have ok: "?good \<Longrightarrow> fst ?a = Inr ()"
          by (simp add: appendToCSV_service w4)
        consider "content_of w = Some []"
          | "content_of w \<noteq> Some []" "\<not> (latin1 fid \<and> latin1 name \<and> latin1 kind)"
          | "?good"
          by blast
        then show ?thesis
        proof cases
          case 1
          then show ?thesis
            using Pair o1 w1 \<open>send_reply_of f c Checking = SendReply ok mid\<close> None s4 o4 second a failed
            by (simp add: upload_body_def checkForDuplicate_service w3_def [symmetric] w3
                  case_prod_beta)
        next
          case 2
          then have "\<not> ?good"
            by blast
          then show ?thesis
            using Pair o1 w1 \<open>send_reply_of f c Checking = SendReply ok mid\<close> None s4 o4 second a
              wide [OF 2]
            by (simp add: upload_body_def checkForDuplicate_service w3_def [symmetric] w3
                  case_prod_beta)
        next
          case 3
          then show ?thesis
            using Pair o1 w1 \<open>send_reply_of f c Checking = SendReply ok mid\<close> None s4 o4 second a ok
            by (simp add: upload_body_def checkForDuplicate_service w3_def [symmetric] w3
                  getFileCount_world deleteMessage_content sendMessage_content case_prod_beta
                  split: sum.splits)
        qed
      qed
    qed
  qed
qed

lemma handleFileUpload_content:
  "content_of (snd (handleFileUpload (service f) rnd m w)) =
     (case upload_fields m of
        Inl e \<Rightarrow> content_of w
      | Inr (fid, name, kind) \<Rightarrow>
          if fid \<noteq> [] \<and> send_reply_of f (chat_id m) Checking \<noteq> SendThrew \<and>
             dup_in_content (content_of w) name fid = None \<and>
             send_reply_of f (chat_id m) Adding \<noteq> SendThrew \<and> content_of w \<noteq> Some [] \<and>
             latin1 fid \<and> latin1 name \<and> latin1 kind
          then Some (next_content (content_of w)
                       (narrow (csv_row (units (generateNumericalFileId rnd)) fid name kind)))
          else content_of w)"
proof (cases "upload_fields m")
  case (Inl e)
  then show ?thesis
    by (simp add: handleFileUpload_def)
next
  case (Inr t)
  obtain fid name kind where t: "t = (fid, name, kind)"
    by (cases t)
  let ?body = "upload_body (service f) rnd (chat_id m) fid name kind w"
  have "content_of (snd (try_catch ?body
            (\<lambda>error w'.
               (case sendMessage (service f) (chat_id m) (ErrorNotice error)
                       (console_error (service f) (UploadError error) w') of
                  (Inl e, w'') \<Rightarrow> (Inl e, w'')
                | (Inr sent, w'') \<Rightarrow> (Inr (), w''))))) = content_of (snd ?body)"
  proof (cases ?body)
    case (Pair outcome w')
    show ?thesis
    proof (cases outcome)
      case (Inl error)
      have "content_of (snd (sendMessage (service f) (chat_id m) (ErrorNotice error)
                (console_error (service f) (UploadError error) w'))) = content_of w'"
        by (simp add: sendMessage_content service_console content_of_updates)
      then show ?thesis
        using Pair Inl by (auto simp: try_catch_def split: prod.splits sum.splits)
    next
      case (Inr u)
      then show ?thesis
        using Pair by (simp add: try_catch_def)
    qed
  qed
  then show ?thesis
    using Inr t upload_body_content [of f rnd "chat_id m" fid name kind w]
    by (simp add: handleFileUpload_def)
qed

lemma id_of_tenths: "generateNumericalFileId (\<lambda>i. real (i mod 10) / 10) = ''0123456789012345''"
  by (simp add: generateNumericalFileId_def gen_loop_unroll gen_loop_done charAt_def digits_def)

lemma id_of_halves: "generateNumericalFileId (\<lambda>i. 1 / 2) = ''5555555555555555''"
  by (simp add: generateNumericalFileId_def gen_loop_unroll gen_loop_done charAt_def digits_def)

lemma reliable_sends: "send_reply_of reliable c text = SendReply True 1"
  by (simp add: reliable_def)

lemma stored_rows_content:
  "content_of w = Some c \<Longrightarrow> stored_rows w = tl (data_lines c)"
  by (simp add: stored_rows_def)

text \<open>
  C3. Two documents with the same name \<open>" a.pdf"\<close> (a leading space) and different file
  references are uploaded to an empty store. The duplicate check of the second upload
  compares the name as uploaded with the trimmed name it reads from the store, finds
  nothing, and the second record is appended: the store holds two records with the same
  name.
\<close>

theorem uploads_same_name_twice:
  "content_of
     (uploads (service reliable)
        [(\<lambda>i. real (i mod 10) / 10,
          \<lparr>chat_id = 7, message_id = 1,
           document = Some (TgFile (units ''BQACAgUAAxkBAAIBZ2'') (Some (units '' a.pdf''))),
           photo = None, video = None\<rparr>),
         (\<lambda>i. 1 / 2,
          \<lparr>chat_id = 7, message_id = 2,
           document = Some (TgFile (units ''BQACAgUAAxkBAAIBZ3'') (Some (units '' a.pdf''))),
           photo = None, video = None\<rparr>)]
        empty_world) =
     Some (''numerical_file_id,file_id,file_name,file_type'' @ [LF] @
           ''0123456789012345,BQACAgUAAxkBAAIBZ2, a.pdf,Document'' @ [LF] @
           ''5555555555555555,BQACAgUAAxkBAAIBZ3, a.pdf,Document'' @ [LF]) \<and>
   records
     (uploads (service reliable)
        [(\<lambda>i. real (i mod 10) / 10,
          \<lparr>chat_id = 7, message_id = 1,
           document = Some (TgFile (units ''BQACAgUAAxkBAAIBZ2'') (Some (units '' a.pdf''))),
           photo = None, video = None\<rparr>),
         (\<lambda>i. 1 / 2,
          \<lparr>chat_id = 7, message_id = 2,
           document = Some (TgFile (units ''BQACAgUAAxkBAAIBZ3'') (Some (units '' a.pdf''))),
           photo = None, video = None\<rparr>)]
        empty_world) =
     [[''0123456789012345'', ''BQACAgUAAxkBAAIBZ2'', ''a.pdf'', ''Document''],
      [''5555555555555555'', ''BQACAgUAAxkBAAIBZ3'', ''a.pdf'', ''Document'']]"
proof -
  let ?m1 = "\<lparr>chat_id = 7, message_id = 1,
           document = Some (TgFile (units ''BQACAgUAAxkBAAIBZ2'') (Some (units '' a.pdf''))),
           photo = None, video = None\<rparr>"
  let ?m2 = "\<lparr>chat_id = 7, message_id = 2,
           document = Some (TgFile (units ''BQACAgUAAxkBAAIBZ3'') (Some (units '' a.pdf''))),
           photo = None, video = None\<rparr>"
  let ?r1 = "''0123456789012345,BQACAgUAAxkBAAIBZ2, a.pdf,Document''"
  let ?r2 = "''5555555555555555,BQACAgUAAxkBAAIBZ3, a.pdf,Document''"
  let ?w1 = "snd (handleFileUpload (service reliable) (\<lambda>i. real (i mod 10) / 10) ?m1 empty_world)"
  let ?w2 = "snd (handleFileUpload (service reliable) (\<lambda>i. 1 / 2) ?m2 ?w1)"
  have f1: "upload_fields ?m1 =
      Inr (units ''BQACAgUAAxkBAAIBZ2'', units '' a.pdf'', units ''Document'')"
    and f2: "upload_fields ?m2 =
      Inr (units ''BQACAgUAAxkBAAIBZ3'', units '' a.pdf'', units ''Document'')"
    by (simp_all add: upload_fields_def name_or_def or_else_def)
  have row1: "row_text ''0123456789012345'' ''BQACAgUAAxkBAAIBZ2'' '' a.pdf'' ''Document'' = ?r1"
    and row2: "row_text ''5555555555555555'' ''BQACAgUAAxkBAAIBZ3'' '' a.pdf'' ''Document'' = ?r2"
    by (simp_all add: row_text_eq quoted_eq)
  have t: "trim ''0123456789012345'' = ''0123456789012345''"
    "trim ''5555555555555555'' = ''5555555555555555''"
    "trim ''BQACAgUAAxkBAAIBZ2'' = ''BQACAgUAAxkBAAIBZ2''"
    "trim ''BQACAgUAAxkBAAIBZ3'' = ''BQACAgUAAxkBAAIBZ3''"
    "trim ''Document'' = ''Document''" "trim ?r1 = ?r1" "trim ?r2 = ?r2"
    by (rule trim_fixed, simp add: isWhiteSpace_def)+
  have ta: "trim '' a.pdf'' = ''a.pdf''"
    by (simp add: trim_def trimEnd_def isWhiteSpace_def)
  have p1: "parseCSVLine ?r1 = [''0123456789012345'', ''BQACAgUAAxkBAAIBZ2'', ''a.pdf'', ''Document'']"
    using parse_csv_row [of "''0123456789012345''" "''BQACAgUAAxkBAAIBZ2''" "''Document''" "'' a.pdf''"]
    by (simp add: plain_def row1 t ta)
  have p2: "parseCSVLine ?r2 = [''5555555555555555'', ''BQACAgUAAxkBAAIBZ3'', ''a.pdf'', ''Document'']"
    using parse_csv_row [of "''5555555555555555''" "''BQACAgUAAxkBAAIBZ3''" "''Document''" "'' a.pdf''"]
    by (simp add: plain_def row2 t ta)
  have d1: "data_lines ?r1 = [?r1]" and d2: "data_lines ?r2 = [?r2]"
    using t by (simp_all add: data_lines_single trim_fixed_trimEnd)
  have e: "content_of empty_world = None"
    by (simp add: content_of_def empty_world_def)
  have c1: "content_of ?w1 = Some (next_content None ?r1)"
    by (simp add: handleFileUpload_content f1 e reliable_sends dup_in_content_def id_of_tenths
          csv_row_units row1)
  have l1: "data_lines (next_content None ?r1) = [header_line, ?r1]"
    unfolding data_lines_next d1 by simp
  have "dup_loop [header_line, ?r1] (units '' a.pdf'') (units ''BQACAgUAAxkBAAIBZ3'') = None"
    unfolding dup_loop_header by (simp add: dup_loop.simps t p1)
  then have nodup: "dup_in_content (content_of ?w1) (units '' a.pdf'')
      (units ''BQACAgUAAxkBAAIBZ3'') = None"
    unfolding c1 dup_in_content_data_lines l1 .
  have "next_content None ?r1 \<noteq> []"
    by (simp add: next_content_def)
  then have c2: "content_of ?w2 = Some (next_content (Some (next_content None ?r1)) ?r2)"
    using nodup handleFileUpload_content [of reliable "\<lambda>i. 1 / 2" ?m2 ?w1]
    by (simp add: f2 reliable_sends id_of_halves csv_row_units row2 c1)
  have l2: "data_lines (next_content (Some (next_content None ?r1)) ?r2) = [header_line, ?r1, ?r2]"
    unfolding data_lines_next d2 by (simp add: l1)
  have whole: "next_content (Some (next_content None ?r1)) ?r2 =
      ''numerical_file_id,file_id,file_name,file_type'' @ [LF] @ ?r1 @ [LF] @ ?r2 @ [LF]"
    by (simp add: next_content_def header_line_def trimEnd_def isWhiteSpace_def)
  have "records ?w2 = [parseCSVLine ?r1, parseCSVLine ?r2]"
    unfolding records_def stored_rows_content [OF c2] l2 by simp
  then show ?thesis
    using c2 by (simp add: whole p1 p2)
qed

section \<open>Two header tests\<close>

lemma find_loop_without_header:
  "find_loop False ls i = find_loop True (without_header ls) i"
  by (induction ls) (simp_all add: find_loop.simps find_header_test_def)

lemma hd_split_lines: "hd (split_lines c) = takeWhile (\<lambda>x. x \<noteq> LF) c"
  by (induction c) (auto split: list.splits simp: split_lines_not_Nil)

lemma headed_first_line: "headed c \<Longrightarrow> hd (split_lines c) = header_line"
proof -
  assume "headed c"
  then obtain rest where "c = header_line @ LF # rest"
    by (auto simp: headed_iff)
  then show ?thesis
    using split_lines_no_LF [OF header_no_LF] by (simp add: split_lines_append_LF)
qed

text \<open>
  C7, as amended. \<^verbatim>\<open>getFileCount\<close> subtracts one exactly when the content holds a
  line feed and its first line, as it stands, contains \<open>numerical\<close> or \<open>file_id\<close>
  in any case. \<^verbatim>\<open>findFileByIdStreaming\<close> uses another test: it sets aside, once, the
  first line that is not blank and whose trimmed text contains \<open>numerical\<close> in any case,
  wherever that line stands. On a store that begins with the header line that
  \<^verbatim>\<open>appendToCSV\<close> writes the two agree: the count subtracts one and the scan sets aside
  that first line.
\<close>

theorem header_tests_of_count_and_find:
  "(hasHeader c \<longleftrightarrow>
      LF \<in> set c \<and>
      (str_includes (toLowerCase (hd (split_lines c))) ''numerical'' \<or>
       str_includes (toLowerCase (hd (split_lines c))) ''file_id'')) \<and>
   count_content (Some (x # xs)) =
     max 0 (int (length (filter (\<lambda>l. trim l \<noteq> []) (split_lines (x # xs))))
            - (if hasHeader (x # xs) then 1 else 0)) \<and>
   find_in_content (Some (x # xs)) i = find_loop True (without_header (split_lines (x # xs))) i \<and>
   (headed c \<longrightarrow>
      hasHeader c \<and> find_header_test (hd (split_lines c)) \<and>
      without_header (split_lines c) = tl (split_lines c))"
proof -
  have a: "hasHeader c \<longleftrightarrow>
      LF \<in> set c \<and>
      (str_includes (toLowerCase (hd (split_lines c))) ''numerical'' \<or>
       str_includes (toLowerCase (hd (split_lines c))) ''file_id'')"
    by (simp add: hasHeader_def hd_split_lines)
  have b: "count_content (Some (x # xs)) =
     max 0 (int (length (filter (\<lambda>l. trim l \<noteq> []) (split_lines (x # xs))))
            - (if hasHeader (x # xs) then 1 else 0))"
    unfolding count_content_def count_lines_filter by simp
  have c: "find_in_content (Some (x # xs)) i = find_loop True (without_header (split_lines (x # xs))) i"
    by (simp add: find_in_content_def find_loop_without_header)
  have d: "headed c \<longrightarrow>
      hasHeader c \<and> find_header_test (hd (split_lines c)) \<and>
      without_header (split_lines c) = tl (split_lines c)"
  proof
    assume h: "headed c"
    have t: "find_header_test header_line"
      using header_marker header_not_blank by (simp add: find_header_test_def header_trim)
    obtain l ls where s: "split_lines c = l # ls"
      using split_lines_not_Nil [of c] by (cases "split_lines c") auto
    with headed_first_line [OF h] have "l = header_line" by simp
    with s t headed_hasHeader [OF h] show "hasHeader c \<and> find_header_test (hd (split_lines c)) \<and>
      without_header (split_lines c) = tl (split_lines c)"
      by simp
  qed
  from a b c d show ?thesis by blast
qed

theorem header_tests_of_count_and_find_witness:
  "headed (header_line @ LF # ''1,2,3,4'') \<and>
   hasHeader (header_line @ LF # ''1,2,3,4'') \<and>
   find_header_test (hd (split_lines (header_line @ LF # ''1,2,3,4''))) \<and>
   without_header (split_lines (header_line @ LF # ''1,2,3,4'')) = [''1,2,3,4'']"
proof -
  have h: "headed (header_line @ LF # ''1,2,3,4'')"
    unfolding headed_iff by blast
  have t: "tl (split_lines (header_line @ LF # ''1,2,3,4'')) = [''1,2,3,4'']"
    using split_lines_no_LF [OF header_no_LF] by (simp add: split_lines_append_LF)
  have "hasHeader (header_line @ LF # ''1,2,3,4'') \<and>
      find_header_test (hd (split_lines (header_line @ LF # ''1,2,3,4''))) \<and>
      without_header (split_lines (header_line @ LF # ''1,2,3,4'')) =
        tl (split_lines (header_line @ LF # ''1,2,3,4''))"
    using h header_tests_of_count_and_find [of "header_line @ LF # ''1,2,3,4''" "CHR ''1''" "[]" "[]"]
    by blast
  with h show ?thesis
    unfolding t by blast
qed

text \<open>
  The claim as stated fails on a first line that holds \<open>file_id\<close> and not
  \<open>numerical\<close>: the count takes it for a header and subtracts one, the scan reads it as
  a record.
\<close>

theorem header_tests_counterexample:
  "hasHeader (''file_id,a,b,c'' @ [LF] @ ''1,2,3,4'') \<and>
   \<not> spec_header_detected (''file_id,a,b,c'' @ [LF] @ ''1,2,3,4'') \<and>
   \<not> find_header_test ''file_id,a,b,c'' \<and>
   count_content (Some (''file_id,a,b,c'' @ [LF] @ ''1,2,3,4'')) = 1 \<and>
   find_in_content (Some (''file_id,a,b,c'' @ [LF] @ ''1,2,3,4'')) (units ''file_id'') =
     Some \<lparr>file_id = ''a'', file_name = ''b'', file_type = ''c''\<rparr>"
proof -
  let ?l = "''file_id,a,b,c''"
  let ?c = "?l @ [LF] @ ''1,2,3,4''"
  have s: "split_lines ?c = [?l, ''1,2,3,4'']"
    using split_lines_append_LF [of ?l "''1,2,3,4''"] by (simp add: split_lines_no_LF)
  have t: "trim ?l = ?l" "trim ''1,2,3,4'' = ''1,2,3,4''" "trim ''file_id'' = ''file_id''"
    "trim ''a'' = ''a''" "trim ''b'' = ''b''" "trim ''c'' = ''c''"
    by (rule trim_fixed, simp add: isWhiteSpace_def)+
  have low: "toLowerCase ?l = ?l"
    by (simp add: toLowerCase_def lowerChar_def)
  have no: "\<not> str_includes ?l ''numerical''"
    by (simp add: startsWith_def)
  have yes: "str_includes ?l ''file_id''"
    by (simp add: startsWith_def)
  have h: "hasHeader ?c"
    using yes low by (simp add: hasHeader_def)
  have n: "\<not> find_header_test ?l"
    using no low by (simp add: find_header_test_def t)
  have sp: "\<not> spec_header_detected ?c"
    using no low unfolding spec_header_detected_def s by (simp add: t)
  have p: "parseCSVLine ?l = [''file_id'', ''a'', ''b'', ''c'']"
    using parse_csv_row [of "''file_id''" "''a''" "''c''" "''b''"]
    by (simp add: plain_def t row_text_eq quoted_eq)
  have cnt: "count_content (Some ?c) = 1"
    using h unfolding count_content_def count_lines_filter s by (simp add: t)
  have "find_loop False [?l, ''1,2,3,4''] (units ''file_id'') =
      Some \<lparr>file_id = ''a'', file_name = ''b'', file_type = ''c''\<rparr>"
    using no low by (simp add: find_loop.simps t p or_else_def)
  then have f: "find_in_content (Some ?c) (units ''file_id'') =
      Some \<lparr>file_id = ''a'', file_name = ''b'', file_type = ''c''\<rparr>"
    unfolding find_in_content_def s by simp
  from h sp n cnt f show ?thesis by blast
qed

section \<open>Uploads with tidy names keep names and references unique\<close>

lemma charAt_subset: "set (charAt s k) \<subseteq> set s"
  by (auto simp: charAt_def)

lemma gen_loop_subset: "set (gen_loop rnd len i result) \<subseteq> set result \<union> set digits"
proof (induction rnd len i result rule: gen_loop.induct)
  case (1 rnd len i result)
  show ?case
  proof (cases "i < len")
    case True
    have "gen_loop rnd len i result =
        gen_loop rnd len (i + 1) (result @ charAt digits \<lfloor>rnd i * real (length digits)\<rfloor>)"
      using True by (subst gen_loop.simps) simp
    then show ?thesis
      using "1.IH" [OF True] charAt_subset [of digits "\<lfloor>rnd i * real (length digits)\<rfloor>"]
      by auto
  next
    case False
    then have "gen_loop rnd len i result = result"
      by (rule gen_loop_done)
    then show ?thesis by simp
  qed
qed

lemma digit_not_special:
  "c \<in> set digits \<Longrightarrow> c \<noteq> DQUOTE \<and> c \<noteq> COMMA \<and> c \<noteq> LF \<and> \<not> isWhiteSpace c"
  by (auto simp: digits_def isWhiteSpace_def)

lemma digits_plain_tidy:
  assumes "set s \<subseteq> set digits"
  shows "plain s \<and> tidy s"
proof -
  have each: "\<And>c. c \<in> set s \<Longrightarrow> c \<noteq> DQUOTE \<and> c \<noteq> COMMA \<and> c \<noteq> LF \<and> \<not> isWhiteSpace c"
    using assms digit_not_special by blast
  then have p: "plain s" and l: "LF \<notin> set s"
    unfolding plain_def by blast+
  have "s \<noteq> [] \<Longrightarrow> hd s \<in> set s \<and> last s \<in> set s"
    by simp
  then have "s = [] \<or> (\<not> isWhiteSpace (hd s) \<and> \<not> isWhiteSpace (last s))"
    using each by blast
  then have "trim s = s"
    by (rule trim_fixed)
  with p l show ?thesis
    by (simp add: tidy_def)
qed

lemma generated_id_clean:
  "plain (generateNumericalFileId rnd) \<and> tidy (generateNumericalFileId rnd)"
  using gen_loop_subset [of rnd 16 0 "[]"]
  by (intro digits_plain_tidy) (simp add: generateNumericalFileId_def)

lemma upload_kind:
  assumes "upload_fields m = Inr (fid, name, kind)" and "fid \<noteq> []"
  shows "kind = units ''Document'' \<or> kind = units ''Photo'' \<or> kind = units ''Video''"
  using assms
  by (auto simp: upload_fields_def split: option.splits tg_file.splits list.splits)

lemma kind_clean:
  assumes "kind = units ''Document'' \<or> kind = units ''Photo'' \<or> kind = units ''Video''"
  shows "latin1 kind \<and> plain (narrow kind) \<and> tidy (narrow kind)"
proof -
  have "trim ''Document'' = ''Document''" "trim ''Photo'' = ''Photo''" "trim ''Video'' = ''Video''"
    by (rule trim_fixed, simp add: isWhiteSpace_def)+
  with assms show ?thesis
    by (auto simp: plain_def tidy_def)
qed

lemma stored_rows_next:
  assumes "well_headed w" and "content_of w' = Some (next_content (content_of w) row)"
  shows "well_headed w'" and "stored_rows w' = stored_rows w @ data_lines row"
proof -
  have "headed (next_content (content_of w) row)"
    using assms(1) by (intro headed_next) (auto simp: well_headed_def split: option.splits)
  then show "well_headed w'"
    by (simp add: well_headed_def assms(2))
  show "stored_rows w' = stored_rows w @ data_lines row"
  proof (cases "content_of w")
    case None
    then show ?thesis
      by (simp add: stored_rows_def assms(2) data_lines_next)
  next
    case (Some old)
    with assms(1) obtain ls where "data_lines old = header_line # ls"
      using headed_data_lines [of old] by (auto simp: well_headed_def)
    with Some show ?thesis
      by (simp add: stored_rows_def assms(2) data_lines_next)
  qed
qed

lemma same_content:
  assumes "content_of w' = content_of w"
  shows "well_headed w' = well_headed w" and "stored_rows w' = stored_rows w"
  using assms by (simp_all add: well_headed_def stored_rows_def)

lemma no_duplicate_fresh:
  assumes "well_headed w" and "\<forall>e \<in> set es. clean e" and "stored_rows w = map row_of es"
    and "dup_in_content (content_of w) name fid = None"
  shows "\<forall>e \<in> set es. units (entry_name e) \<noteq> name \<and> units (entry_file_id e) \<noteq> fid"
proof (cases "content_of w")
  case None
  with assms(3) show ?thesis
    by (simp add: stored_rows_def)
next
  case (Some c)
  with assms(1) obtain ls where ls: "data_lines c = header_line # ls"
    using headed_data_lines [of c] by (auto simp: well_headed_def)
  with Some assms(3) have "ls = map row_of es"
    by (simp add: stored_rows_def)
  with assms(4) Some ls have "dup_loop (header_line # map row_of es) name fid = None"
    by (simp add: dup_in_content_data_lines)
  then have "dup_loop (map row_of es) name fid = None"
    by (simp add: dup_loop_header split: if_splits)
  then have "find (\<lambda>e. units (entry_name e) = name \<or> units (entry_file_id e) = fid) es = None"
    by (simp add: dup_loop_rows [OF assms(2)])
  then show ?thesis
    by (auto simp: find_None_iff)
qed

lemma upload_step:
  assumes "well_headed w" and "\<forall>e \<in> set es. clean e" and "stored_rows w = map row_of es"
    and "distinct (map entry_name es)" and "distinct (map entry_file_id es)"
    and "tidy_upload m"
  shows "\<exists>more. well_headed (snd (handleFileUpload (service f) rnd m w)) \<and>
           (\<forall>e \<in> set (es @ more). clean e) \<and>
           stored_rows (snd (handleFileUpload (service f) rnd m w)) = map row_of (es @ more) \<and>
           distinct (map entry_name (es @ more)) \<and> distinct (map entry_file_id (es @ more))"
proof -
  let ?w = "snd (handleFileUpload (service f) rnd m w)"
  note effect = handleFileUpload_content [of f rnd m w]
  show ?thesis
  proof (cases "content_of ?w = content_of w")
    case True
    then have "well_headed ?w \<and> (\<forall>e \<in> set (es @ []). clean e) \<and>
        stored_rows ?w = map row_of (es @ []) \<and>
        distinct (map entry_name (es @ [])) \<and> distinct (map entry_file_id (es @ []))"
      using assms same_content [OF True] by simp
    then show ?thesis ..
  next
    case False
    then obtain fid name kind where fields: "upload_fields m = Inr (fid, name, kind)"
      using effect by (cases "upload_fields m") auto
    from False effect fields have fid: "fid \<noteq> []"
      and nodup: "dup_in_content (content_of w) name fid = None"
      and new: "content_of ?w =
          Some (next_content (content_of w)
                  (narrow (csv_row (units (generateNumericalFileId rnd)) fid name kind)))"
      by (auto split: if_splits)
    let ?e = "\<lparr>entry_id = generateNumericalFileId rnd, entry_file_id = narrow fid,
               entry_name = narrow name, entry_type = narrow kind\<rparr>"
    have given: "latin1 fid \<and> latin1 name \<and> plain (narrow fid) \<and> tidy (narrow fid) \<and>
        tidy (narrow name)"
      using assms(6) fields by (simp add: tidy_upload_def)
    note kind = kind_clean [OF upload_kind [OF fields fid]]
    have c: "clean ?e"
      using generated_id_clean [of rnd] kind given by (simp add: clean_def)
    have row: "narrow (csv_row (units (generateNumericalFileId rnd)) fid name kind) = row_of ?e"
      using given kind by (simp add: row_of_def row_text_def units_narrow)
    have "\<forall>e \<in> set es. units (entry_name e) \<noteq> name \<and> units (entry_file_id e) \<noteq> fid"
      using assms(1,2,3) nodup by (rule no_duplicate_fresh)
    then have fresh: "narrow name \<notin> set (map entry_name es) \<and>
        narrow fid \<notin> set (map entry_file_id es)"
      using given units_narrow [of name] units_narrow [of fid] by auto
    have "well_headed ?w" and "stored_rows ?w = stored_rows w @ data_lines (row_of ?e)"
      using stored_rows_next [OF assms(1) new] by (simp_all add: row)
    then have "well_headed ?w \<and> (\<forall>e \<in> set (es @ [?e]). clean e) \<and>
        stored_rows ?w = map row_of (es @ [?e]) \<and>
        distinct (map entry_name (es @ [?e])) \<and> distinct (map entry_file_id (es @ [?e]))"
      using assms(2,3,4,5) c fresh by (simp add: data_lines_row)
    then show ?thesis ..
  qed
qed

lemma uploads_invariant:
  assumes "\<forall>op \<in> set ops. tidy_upload (snd op)"
    and "well_headed w" and "\<forall>e \<in> set es. clean e" and "stored_rows w = map row_of es"
    and "distinct (map entry_name es)" and "distinct (map entry_file_id es)"
  shows "\<exists>more. (\<forall>e \<in> set (es @ more). clean e) \<and>
           stored_rows (uploads (service f) ops w) = map row_of (es @ more) \<and>
           distinct (map entry_name (es @ more)) \<and> distinct (map entry_file_id (es @ more))"
  using assms
proof (induction ops arbitrary: w es)
  case Nil
  then have "(\<forall>e \<in> set (es @ []). clean e) \<and>
      stored_rows (uploads (service f) [] w) = map row_of (es @ []) \<and>
      distinct (map entry_name (es @ [])) \<and> distinct (map entry_file_id (es @ []))"
    by simp
  then show ?case ..
next
  case (Cons op ops)
  obtain rnd m where op: "op = (rnd, m)"
    by (cases op)
  from Cons.prems(1) op have m: "tidy_upload m" and rest: "\<forall>op \<in> set ops. tidy_upload (snd op)"
    by simp_all
  obtain more where step: "well_headed (snd (handleFileUpload (service f) rnd m w))"
      "\<forall>e \<in> set (es @ more). clean e"
      "stored_rows (snd (handleFileUpload (service f) rnd m w)) = map row_of (es @ more)"
      "distinct (map entry_name (es @ more))" "distinct (map entry_file_id (es @ more))"
    using upload_step [OF Cons.prems(2,3,4,5,6) m, of f rnd] by blast
  obtain later where "(\<forall>e \<in> set ((es @ more) @ later). clean e) \<and>
      stored_rows (uploads (service f) ops (snd (handleFileUpload (service f) rnd m w))) =
        map row_of ((es @ more) @ later) \<and>
      distinct (map entry_name ((es @ more) @ later)) \<and>
      distinct (map entry_file_id ((es @ more) @ later))"
    using Cons.IH [OF rest step] by blast
  then have "(\<forall>e \<in> set (es @ (more @ later)). clean e) \<and>
      stored_rows (uploads (service f) (op # ops) w) = map row_of (es @ (more @ later)) \<and>
      distinct (map entry_name (es @ (more @ later))) \<and>
      distinct (map entry_file_id (es @ (more @ later)))"
    by (simp add: op)
  then show ?case ..
qed

text \<open>
  Uploads whose names and file references are tidy, to a store that was empty, whatever
  the messaging platform answers: the records of the store have pairwise different file
  references and pairwise different names.
\<close>

theorem uploads_keep_names_unique:
  assumes "\<forall>op \<in> set ops. tidy_upload (snd op)"
  shows "distinct (map (\<lambda>fields. fields ! 1) (records (uploads (service f) ops empty_world))) \<and>
         distinct (map (\<lambda>fields. fields ! 2) (records (uploads (service f) ops empty_world)))"
proof -
  obtain es where es: "\<forall>e \<in> set es. clean e"
      "stored_rows (uploads (service f) ops empty_world) = map row_of es"
      "distinct (map entry_name es)" "distinct (map entry_file_id es)"
    using uploads_invariant [OF assms well_headed_empty, of "[]" f]
    by (auto simp: stored_rows_empty)
  have "map parseCSVLine (map row_of es) =
      map (\<lambda>e. [entry_id e, entry_file_id e, entry_name e, entry_type e]) es"
    using es(1) by (simp add: row_of_fields)
  then have "records (uploads (service f) ops empty_world) =
      map (\<lambda>e. [entry_id e, entry_file_id e, entry_name e, entry_type e]) es"
    by (simp add: records_def es(2))
  then show ?thesis
    using es(3,4) by (simp add: comp_def)
qed

text \<open>
  The same two documents as above with the name \<open>"a.pdf"\<close>, without the leading space:
  the theorem applies.
\<close>

theorem uploads_keep_names_unique_example:
  "distinct (map (\<lambda>fields. fields ! 1)
     (records (uploads (service reliable)
        [(\<lambda>i. real (i mod 10) / 10,
          \<lparr>chat_id = 7, message_id = 1,
           document = Some (TgFile (units ''BQACAgUAAxkBAAIBZ2'') (Some (units ''a.pdf''))),
           photo = None, video = None\<rparr>),
         (\<lambda>i. 1 / 2,
          \<lparr>chat_id = 7, message_id = 2,
           document = Some (TgFile (units ''BQACAgUAAxkBAAIBZ3'') (Some (units ''a.pdf''))),
           photo = None, video = None\<rparr>)]
        empty_world))) \<and>
   distinct (map (\<lambda>fields. fields ! 2)
     (records (uploads (service reliable)
        [(\<lambda>i. real (i mod 10) / 10,
          \<lparr>chat_id = 7, message_id = 1,
           document = Some (TgFile (units ''BQACAgUAAxkBAAIBZ2'') (Some (units ''a.pdf''))),
           photo = None, video = None\<rparr>),
         (\<lambda>i. 1 / 2,
          \<lparr>chat_id = 7, message_id = 2,
           document = Some (TgFile (units ''BQACAgUAAxkBAAIBZ3'') (Some (units ''a.pdf''))),
           photo = None, video = None\<rparr>)]
        empty_world)))"
  using uploads_keep_names_unique [of
      "[(\<lambda>i. real (i mod 10) / 10,
          \<lparr>chat_id = 7, message_id = 1,
           document = Some (TgFile (units ''BQACAgUAAxkBAAIBZ2'') (Some (units ''a.pdf''))),
           photo = None, video = None\<rparr>),
         (\<lambda>i. 1 / 2,
          \<lparr>chat_id = 7, message_id = 2,
           document = Some (TgFile (units ''BQACAgUAAxkBAAIBZ3'') (Some (units ''a.pdf''))),
           photo = None, video = None\<rparr>)]" reliable]
  by (simp add: tidy_upload_def upload_fields_def name_or_def or_else_def plain_def tidy_def trim_def
      trimEnd_def isWhiteSpace_def)

end
